theory Spec2Isabelle
  imports Main "HOL-Library.AList" "HOL-Library.Sublist"
begin

section \<open>Strings\<close>

text \<open>
  JavaScript strings are modelled as HOL strings (lists of characters, one
  \<^typ>\<open>char\<close> per code unit).  The three \<^verbatim>\<open>String.prototype\<close> tests the
  sources use are written out on lists.
\<close>

definition startsWith :: "string \<Rightarrow> string \<Rightarrow> bool" where
  "startsWith s p = (take (length p) s = p)"

definition endsWith :: "string \<Rightarrow> string \<Rightarrow> bool" where
  "endsWith s p = (length p \<le> length s \<and> drop (length s - length p) s = p)"

fun str_includes :: "string \<Rightarrow> string \<Rightarrow> bool" where
  "str_includes [] sub = (sub = [])"
| "str_includes (c # s) sub = (startsWith (c # s) sub \<or> str_includes s sub)"

section \<open>The host's \<^verbatim>\<open>path.extname\<close>\<close>

text \<open>
  \<^verbatim>\<open>path.extname\<close> belongs to the host runtime, not to the repository.  It is
  written out here in its POSIX flavour, following the library's own loop: the
  path is scanned from its last character to its first, trailing separators
  are ignored, the scan stops at the separator in front of the last path
  portion, and the extension runs from the last dot of that portion to its
  end, unless the portion has no dot, starts with its only dot, or is
  \<^verbatim>\<open>..\<close>.  The indices are integers because the library uses \<^verbatim>\<open>-1\<close> for
  "not seen yet".
\<close>

record extname_state =
  startDot :: int
  startPart :: int
  endIdx :: int
  matchedSlash :: bool
  preDotState :: int

text \<open>
  \<^verbatim>\<open>for (let i = path.length - 1; i >= 0; --i)\<close>: the first argument holds the
  characters \<^verbatim>\<open>path[i], path[i-1], ..., path[0]\<close> still to be visited.
\<close>

fun extname_loop :: "string \<Rightarrow> int \<Rightarrow> extname_state \<Rightarrow> extname_state" where
  "extname_loop [] i st = st"
| "extname_loop (code # rest) i st =
    (if code = CHR ''/'' then
       (if \<not> matchedSlash st then st\<lparr>startPart := i + 1\<rparr>
        else extname_loop rest (i - 1) st)
     else
       (let st1 = (if endIdx st = -1 then st\<lparr>endIdx := i + 1, matchedSlash := False\<rparr> else st);
            st2 = (if code = CHR ''.'' then
                     (if startDot st1 = -1 then st1\<lparr>startDot := i\<rparr>
                      else if preDotState st1 \<noteq> 1 then st1\<lparr>preDotState := 1\<rparr>
                      else st1)
                   else if startDot st1 \<noteq> -1 then st1\<lparr>preDotState := -1\<rparr>
                   else st1)
        in extname_loop rest (i - 1) st2))"

definition extname :: "string \<Rightarrow> string" where
  "extname path =
    (let st = extname_loop (rev path) (int (length path) - 1)
                \<lparr>startDot = -1, startPart = 0, endIdx = -1, matchedSlash = True, preDotState = 0\<rparr>
     in if startDot st = -1 \<or> endIdx st = -1 \<or> preDotState st = 0 \<or>
           (preDotState st = 1 \<and> startDot st = endIdx st - 1 \<and> startDot st = startPart st + 1)
        then []
        else take (nat (endIdx st - startDot st)) (drop (nat (startDot st)) path))"

section \<open>The runtime matcher \<^verbatim>\<open>shouldExternalizeForSSR\<close>\<close>

text \<open>
  \<^verbatim>\<open>externals.some((e) => ...)\<close>: the callback answers \<^verbatim>\<open>true\<close> in its two
  \<^verbatim>\<open>if\<close> branches and falls off its end (\<^verbatim>\<open>undefined\<close>, falsy) otherwise.
  \<^verbatim>\<open>!path.extname(id)\<close> holds exactly when the extension is the empty string.
\<close>

definition externalize_callback :: "string \<Rightarrow> string \<Rightarrow> bool" where
  "externalize_callback ident e =
    (if ident = e then True
     else if startsWith ident (e @ ''/'') \<and> (extname ident = [] \<or> endsWith ident ''.js'') then True
     else False)"

definition shouldExternalizeForSSR :: "string \<Rightarrow> string list \<Rightarrow> bool" where
  "shouldExternalizeForSSR ident externals = list_ex (externalize_callback ident) externals"

text \<open>
  The matcher as the specification words it: the id equals a listed id, or it
  is a deep import \<^verbatim>\<open><id>/...\<close> of a listed id and either has no file extension
  or ends in the plain script extension.
\<close>

definition is_deep_import_of :: "string \<Rightarrow> string \<Rightarrow> bool" where
  "is_deep_import_of ident e = (\<exists>rest. ident = e @ ''/'' @ rest)"

definition has_no_file_extension :: "string \<Rightarrow> bool" where
  "has_no_file_extension ident = (extname ident = [])"

definition ends_in_plain_script_extension :: "string \<Rightarrow> bool" where
  "ends_in_plain_script_extension ident = (\<exists>stem. ident = stem @ ''.js'')"

definition spec_should_externalize :: "string \<Rightarrow> string list \<Rightarrow> bool" where
  "spec_should_externalize ident externals =
    (\<exists>e. e \<in> set externals \<and>
       (ident = e \<or>
        (is_deep_import_of ident e \<and>
         (has_no_file_extension ident \<or> ends_in_plain_script_extension ident))))"

section \<open>JavaScript values\<close>

text \<open>
  Configuration values are JavaScript values.  A plain object is the list of
  its own enumerable properties in enumeration order (a well-formed object
  lists every key once); an array is the list of its elements.  Functions and
  regular expressions are opaque: nothing in the merge inspects them beyond
  their kind.  Numbers only travel through the merge, so an integer payload
  stands for them.  \<^verbatim>\<open>Builtin\<close> names a function of the host's prototypes
  (an array destructured for \<^verbatim>\<open>find\<close> yields \<^verbatim>\<open>Array.prototype.find\<close>).
  Properties inherited from \<^verbatim>\<open>Object.prototype\<close> are not part of the model:
  none of them is nullish, an array or a plain object except under the key
  \<^verbatim>\<open>__proto__\<close>, which therefore stays outside of it.
\<close>

datatype jsval =
    Undefined
  | Null
  | Bool bool
  | Num int
  | Str (chars: string)
  | Arr (elems: "jsval list")
  | Obj (props: "(string \<times> jsval) list")
  | Fn nat
  | RegExp string
  | Builtin string

text \<open>
  What the merge can raise: a \<^verbatim>\<open>TypeError\<close> of the host, or a call into a
  user-supplied function stored in the data (\<^verbatim>\<open>OpaqueCall\<close>), which the model
  does not follow.
\<close>

datatype js_error = TypeError | OpaqueCall

type_synonym js_record = "(string \<times> jsval) list"

text \<open>\<^verbatim>\<open>value == null\<close> holds for \<^verbatim>\<open>null\<close> and \<^verbatim>\<open>undefined\<close> only.\<close>

definition is_nullish :: "jsval \<Rightarrow> bool" where
  "is_nullish v = (v = Undefined \<or> v = Null)"

text \<open>\<^verbatim>\<open>o[key]\<close> on a plain object: a missing key reads as \<^verbatim>\<open>undefined\<close>.\<close>

definition js_get :: "js_record \<Rightarrow> string \<Rightarrow> jsval" where
  "js_get kvs key = (case map_of kvs key of None \<Rightarrow> Undefined | Some v \<Rightarrow> v)"

definition isArray :: "jsval \<Rightarrow> bool" where
  "isArray v = is_Arr v"

text \<open>
  Modelled from the spec: \<^verbatim>\<open>isObject\<close> is imported from the repository's
  \<^verbatim>\<open>utils\<close> module, which is not among the sources.  The specification calls
  the values it accepts "plain mapping objects"; arrays, functions, regular
  expressions, \<^verbatim>\<open>null\<close> and primitives are not.
\<close>

definition isObject :: "jsval \<Rightarrow> bool" where
  "isObject v = is_Obj v"

fun mapE :: "('a \<Rightarrow> js_error + 'b) \<Rightarrow> 'a list \<Rightarrow> js_error + 'b list" where
  "mapE f [] = Inr []"
| "mapE f (x # xs) =
    (case f x of
       Inl e \<Rightarrow> Inl e
     | Inr y \<Rightarrow> (case mapE f xs of Inl e \<Rightarrow> Inl e | Inr ys \<Rightarrow> Inr (y # ys)))"

section \<open>Alias Normalizer\<close>

text \<open>
  \<^verbatim>\<open>function normalizeSingleAlias({ find, replacement }: Alias)\<close>: destructuring
  the parameter raises on \<^verbatim>\<open>null\<close> and \<^verbatim>\<open>undefined\<close> and reads the two
  properties of anything else, \<^verbatim>\<open>undefined\<close> where the value has none.
\<close>

fun alias_fields :: "jsval \<Rightarrow> js_error + (jsval \<times> jsval)" where
  "alias_fields Undefined = Inl TypeError"
| "alias_fields Null = Inl TypeError"
| "alias_fields (Obj kvs) = Inr (js_get kvs ''find'', js_get kvs ''replacement'')"
| "alias_fields (Arr xs) = Inr (Builtin ''Array.prototype.find'', Undefined)"
| "alias_fields v = Inr (Undefined, Undefined)"

definition alias_obj :: "jsval \<Rightarrow> jsval \<Rightarrow> jsval" where
  "alias_obj find' replacement = Obj [(''find'', find'), (''replacement'', replacement)]"

text \<open>
  \<^verbatim>\<open>replacement.endsWith('/')\<close> is only reached for a string \<^verbatim>\<open>find\<close> that ends
  in a separator.  On a string it is the string test; on a value without a
  callable \<^verbatim>\<open>endsWith\<close> member it raises \<^verbatim>\<open>TypeError\<close>; on a plain object that
  carries a function under that key it calls the function.
  \<^verbatim>\<open>s.slice(0, s.length - 1)\<close> is \<open>take (length s - 1) s\<close>.
\<close>

definition normalizeSingleAlias :: "jsval \<Rightarrow> js_error + jsval" where
  "normalizeSingleAlias entry =
    (case alias_fields entry of
       Inl e \<Rightarrow> Inl e
     | Inr (find', replacement) \<Rightarrow>
         if is_Str find' \<and> endsWith (chars find') ''/'' then
           (if is_Str replacement then
              (if endsWith (chars replacement) ''/'' then
                 Inr (alias_obj (Str (take (length (chars find') - 1) (chars find')))
                                (Str (take (length (chars replacement) - 1) (chars replacement))))
               else Inr (alias_obj find' replacement))
            else if is_Obj replacement \<and>
                    (is_Fn (js_get (props replacement) ''endsWith'') \<or>
                     is_Builtin (js_get (props replacement) ''endsWith''))
              then Inl OpaqueCall
            else Inl TypeError)
         else Inr (alias_obj find' replacement))"

text \<open>Decimal rendering of an array index, for the keys of a string.\<close>

function show_nat :: "nat \<Rightarrow> string" where
  "show_nat n =
    (if n < 10 then [''0123456789'' ! n]
     else show_nat (n div 10) @ [''0123456789'' ! (n mod 10)])"
  by pat_completeness auto
termination
  by (relation "measure id") auto

declare show_nat.simps [simp del]

text \<open>
  \<^verbatim>\<open>Object.keys(o).map((find) => ({ find, replacement: o[find] }))\<close> for a value
  that is not an array: the own enumerable keys of a plain object, the indices
  of a string, nothing for the other primitives, functions and regular
  expressions; \<^verbatim>\<open>Object.keys\<close> raises on \<^verbatim>\<open>null\<close> and \<^verbatim>\<open>undefined\<close>.
\<close>

fun own_entries :: "jsval \<Rightarrow> js_error + (string \<times> jsval) list" where
  "own_entries Undefined = Inl TypeError"
| "own_entries Null = Inl TypeError"
| "own_entries (Obj kvs) = Inr (map (\<lambda>key. (key, js_get kvs key)) (map fst kvs))"
| "own_entries (Str s) = Inr (map (\<lambda>i. (show_nat i, Str [s ! i])) [0..<length s])"
| "own_entries (Arr xs) = Inr (map (\<lambda>i. (show_nat i, xs ! i)) [0..<length xs])"
| "own_entries v = Inr []"

definition normalizeAlias :: "jsval \<Rightarrow> js_error + jsval list" where
  "normalizeAlias o' =
    (if isArray o' then mapE normalizeSingleAlias (elems o')
     else (case own_entries o' of
             Inl e \<Rightarrow> Inl e
           | Inr es \<Rightarrow>
               mapE (\<lambda>(find', replacement). normalizeSingleAlias (alias_obj (Str find') replacement)) es))"

text \<open>
  \<^verbatim>\<open>function mergeAlias(a = [], b = [])\<close>: a default replaces \<^verbatim>\<open>undefined\<close>
  only; the result spreads the normalized \<^verbatim>\<open>a\<close> and then the normalized \<^verbatim>\<open>b\<close>.
\<close>

definition mergeAlias :: "jsval \<Rightarrow> jsval \<Rightarrow> js_error + jsval" where
  "mergeAlias a b =
    (case normalizeAlias (if a = Undefined then Arr [] else a) of
       Inl e \<Rightarrow> Inl e
     | Inr xs \<Rightarrow>
         (case normalizeAlias (if b = Undefined then Arr [] else b) of
            Inl e \<Rightarrow> Inl e
          | Inr ys \<Rightarrow> Inr (Arr (xs @ ys))))"

section \<open>Config Merger\<close>

text \<open>\<^verbatim>\<open>[].concat(existing, value)\<close> spreads an array argument and appends any other.\<close>

definition concat_arg :: "jsval \<Rightarrow> jsval list" where
  "concat_arg v = (if isArray v then elems v else [v])"

lemma size_js_get: "isObject (js_get b key) \<Longrightarrow> size (Obj (props (js_get b key))) < size (Obj b)"
proof -
  assume h: "isObject (js_get b key)"
  then obtain v where v: "map_of b key = Some v" "js_get b key = v"
    by (auto simp: js_get_def isObject_def split: option.splits)
  have "(k, w) \<in> set kvs \<Longrightarrow> size w < Suc (size_list (size_prod (\<lambda>_. 0) size) kvs)" for k w kvs
    by (induction kvs) auto
  from this[OF map_of_SomeD[OF v(1)]] h v show ?thesis
    by (cases v) (auto simp: isObject_def)
qed

text \<open>
  \<^verbatim>\<open>mergeConfig(a, b, isRoot = true)\<close>.  \<open>merge_loop\<close> is the body of
  \<^verbatim>\<open>for (const key in b)\<close> over the keys still to visit, with \<^verbatim>\<open>merged\<close>
  (initially the copy \<^verbatim>\<open>{ ...a }\<close>) as the loop's state; an assignment
  \<^verbatim>\<open>merged[key] = v\<close> replaces the property in place or appends it.
\<close>

function (sequential)
  mergeConfig :: "js_record \<Rightarrow> js_record \<Rightarrow> bool \<Rightarrow> js_error + js_record" and
  merge_loop :: "js_record \<Rightarrow> bool \<Rightarrow> string list \<Rightarrow> js_record \<Rightarrow> js_error + js_record"
where
  "mergeConfig a b isRoot = merge_loop b isRoot (map fst b) a"
| "merge_loop b isRoot [] merged = Inr merged"
| "merge_loop b isRoot (key # keys) merged =
    (let val = js_get b key in
     if is_nullish val then merge_loop b isRoot keys merged
     else
       let existing = js_get merged key in
       if isArray existing \<and> isArray val then
         merge_loop b isRoot keys (AList.update key (Arr (elems existing @ elems val)) merged)
       else if isObject existing \<and> isObject val then
         (case mergeConfig (props existing) (props val) False of
            Inl e \<Rightarrow> Inl e
          | Inr m \<Rightarrow> merge_loop b isRoot keys (AList.update key (Obj m) merged))
       else if \<not> is_nullish existing \<and> isRoot \<and> key = ''alias'' then
         (case mergeAlias existing val of
            Inl e \<Rightarrow> Inl e
          | Inr al \<Rightarrow> merge_loop b isRoot keys (AList.update key al merged))
       else if \<not> is_nullish existing \<and> isRoot \<and> key = ''assetsInclude'' then
         merge_loop b isRoot keys (AList.update key (Arr (concat_arg existing @ concat_arg val)) merged)
       else merge_loop b isRoot keys (AList.update key val merged))"
  by pat_completeness auto
termination
  apply (relation "measures
      [\<lambda>x. case x of Inl (a, b, r) \<Rightarrow> size (Obj b) | Inr (b, r, ks, m) \<Rightarrow> size (Obj b),
       \<lambda>x. case x of Inl (a, b, r) \<Rightarrow> Suc (length b) | Inr (b, r, ks, m) \<Rightarrow> length ks]")
  apply (auto simp: size_js_get simp del: jsval.size)
  done

declare mergeConfig.simps [simp del]

text \<open>
  The value one round of the loop stores under \<open>key\<close> when the override's
  value is not nullish, as a function of the two values it reads.
\<close>

definition merged_value :: "bool \<Rightarrow> string \<Rightarrow> jsval \<Rightarrow> jsval \<Rightarrow> js_error + jsval" where
  "merged_value isRoot key existing val =
    (if isArray existing \<and> isArray val then Inr (Arr (elems existing @ elems val))
     else if isObject existing \<and> isObject val then
       (case mergeConfig (props existing) (props val) False of
          Inl e \<Rightarrow> Inl e
        | Inr m \<Rightarrow> Inr (Obj m))
     else if \<not> is_nullish existing \<and> isRoot \<and> key = ''alias'' then mergeAlias existing val
     else if \<not> is_nullish existing \<and> isRoot \<and> key = ''assetsInclude'' then
       Inr (Arr (concat_arg existing @ concat_arg val))
     else Inr val)"

text \<open>
  Alias values on which the normalizer cannot raise: no array entry is
  \<^verbatim>\<open>null\<close> or \<^verbatim>\<open>undefined\<close>, and wherever \<^verbatim>\<open>find\<close> is a string that ends in a
  separator the replacement is a string, as the type \<^verbatim>\<open>Alias\<close> declares it.
\<close>

fun alias_entry_ok :: "jsval \<Rightarrow> bool" where
  "alias_entry_ok Undefined = False"
| "alias_entry_ok Null = False"
| "alias_entry_ok (Obj kvs) =
     (\<not> (is_Str (js_get kvs ''find'') \<and> endsWith (chars (js_get kvs ''find'')) ''/'')
      \<or> is_Str (js_get kvs ''replacement''))"
| "alias_entry_ok v = True"

definition alias_ok :: "jsval \<Rightarrow> bool" where
  "alias_ok v =
    (if isArray v then list_all alias_entry_ok (elems v)
     else if isObject v then
       list_all (\<lambda>key. \<not> endsWith key ''/'' \<or> is_Str (js_get (props v) key)) (map fst (props v))
     else True)"


section \<open>SSR Externalization Resolver\<close>

text \<open>Truthiness of a value, as \<^verbatim>\<open>v || d\<close> tests it (numbers are integers here).\<close>

fun truthy :: "jsval \<Rightarrow> bool" where
  "truthy Undefined = False"
| "truthy Null = False"
| "truthy (Bool b) = b"
| "truthy (Num n) = (n \<noteq> 0)"
| "truthy (Str s) = (s \<noteq> [])"
| "truthy v = True"

text \<open>\<^verbatim>\<open>Object.keys(v)\<close> of a value that is not nullish.\<close>

definition object_keys :: "jsval \<Rightarrow> string list" where
  "object_keys v = (case own_entries v of Inl e \<Rightarrow> [] | Inr es \<Rightarrow> map fst es)"

text \<open>
  \<^verbatim>\<open>pkg.devDependencies\<close> on a parsed manifest that is not \<^verbatim>\<open>null\<close>: a plain
  object yields its property; what else JSON can produce has no such member.
\<close>

fun get_member :: "jsval \<Rightarrow> string \<Rightarrow> jsval" where
  "get_member (Obj kvs) key = js_get kvs key"
| "get_member v key = Undefined"

text \<open>\<^verbatim>\<open>Object.keys(pkg.field || {})\<close>.\<close>

definition dep_names :: "jsval \<Rightarrow> string \<Rightarrow> string list" where
  "dep_names pkg field =
    (let d = get_member pkg field in object_keys (if truthy d then d else Obj []))"

text \<open>
  The part of \<^verbatim>\<open>ResolvedConfig\<close> the resolver reads: \<^verbatim>\<open>root\<close> and the optional
  \<^verbatim>\<open>ssr\<close> options with their two optional lists.
\<close>

record ssr_options =
  external :: "string list option"
  noExternal :: "string list option"

record resolved_config =
  root :: string
  ssr :: "ssr_options option"

text \<open>
  The state of one pass.  \<^verbatim>\<open>ssrExternals\<close> is the shared \<^verbatim>\<open>Set<string>\<close>, kept as
  the list of its members in insertion order (the order in which
  \<^verbatim>\<open>[...ssrExternals]\<close> lists them).  \<open>probes\<close> is a ghost log, not present in
  the source: it records on which ids the pass attempted the two resolutions
  (\<open>Resolve\<close>) and whose entry file it read and scanned (\<open>Scan\<close>).
\<close>

datatype probe = Resolve string | Scan string

fun probe_id :: "probe \<Rightarrow> string" where
  "probe_id (Resolve ident) = ident"
| "probe_id (Scan ident) = ident"

record ssr_state =
  ssrExternals :: "string list"
  probes :: "probe list"

definition set_add :: "string \<Rightarrow> ssr_state \<Rightarrow> ssr_state" where
  "set_add ident st =
    (if ident \<in> set (ssrExternals st) then st
     else st\<lparr>ssrExternals := ssrExternals st @ [ident]\<rparr>)"

definition note_probe :: "probe \<Rightarrow> ssr_state \<Rightarrow> ssr_state" where
  "note_probe p st = st\<lparr>probes := probes st @ [p]\<rparr>"

text \<open>
  What the resolver can raise: \<^verbatim>\<open>JSON.parse\<close> on a malformed manifest, a
  property read on a manifest that parsed to \<^verbatim>\<open>null\<close>, \<^verbatim>\<open>resolveFrom\<close> (called
  outside the \<^verbatim>\<open>try\<close>) and \<^verbatim>\<open>fs.readFileSync\<close>.
\<close>

datatype ssr_error = JsonSyntaxError | ManifestTypeError | ResolveFromError | ReadFileError

text \<open>
  The file system, the module resolvers and the library functions the
  resolver calls are parameters of the model.  \<open>lookupFile h r\<close> is
  \<^verbatim>\<open>lookupFile(r, ['package.json'])\<close>, the manifest's text if one is found;
  \<open>tryNodeResolve h ident r\<close> is \<^verbatim>\<open>tryNodeResolve(ident, undefined, {root: r, ...})?.id\<close>,
  with \<open>None\<close> for an exception and \<open>Some None\<close> for no ESM entry;
  \<open>require_resolve h ident r\<close> is \<^verbatim>\<open>require.resolve(ident, {paths: [r]})\<close> and
  \<open>resolveFrom h s r\<close> is \<^verbatim>\<open>resolveFrom(s, r)\<close>, each \<open>None\<close> when it throws;
  \<open>cjs_test h\<close> is the test of the file's text against the pattern
  \<^verbatim>\<open>/\bmodule\.exports\b|\bexports[.\[]|\brequire\s*\(/\<close>, left to the host's
  regular-expression engine.
\<close>

record ssr_host =
  lookupFile :: "string \<Rightarrow> string option"
  JSON_parse :: "string \<Rightarrow> jsval option"
  tryNodeResolve :: "string \<Rightarrow> string \<Rightarrow> string option option"
  require_resolve :: "string \<Rightarrow> string \<Rightarrow> string option"
  resolveFrom :: "string \<Rightarrow> string \<Rightarrow> string option"
  path_dirname :: "string \<Rightarrow> string"
  readFileSync :: "string \<Rightarrow> string option"
  cjs_test :: "string \<Rightarrow> bool"

text \<open>
  The statements after the loop: add every id of \<^verbatim>\<open>config.ssr?.external\<close>
  to the set, list the set, filter out the ids of \<^verbatim>\<open>config.ssr?.noExternal\<close>,
  and filter out \<^verbatim>\<open>'vite'\<close>.
\<close>

definition finish :: "resolved_config \<Rightarrow> ssr_state \<Rightarrow> string list \<times> ssr_state" where
  "finish config st =
    (let st1 = (case ssr config of
                  None \<Rightarrow> st
                | Some opts \<Rightarrow> (case external opts of None \<Rightarrow> st | Some ext \<Rightarrow> fold set_add ext st));
         externals = ssrExternals st1;
         externals = (case ssr config of
                        None \<Rightarrow> externals
                      | Some opts \<Rightarrow> (case noExternal opts of
                                       None \<Rightarrow> externals
                                     | Some ne \<Rightarrow> filter (\<lambda>ident. ident \<notin> set ne) externals))
     in (filter (\<lambda>ident. ident \<noteq> ''vite'') externals, st1))"

text \<open>
  \<^verbatim>\<open>resolveSSRExternal(config, knownImports, ssrExternals)\<close> and the body of its
  loop \<^verbatim>\<open>for (const id of deps)\<close>.  The function calls itself on the directory
  of every linked package, and nothing in the source bounds that recursion
  (two packages linked to each other never return), so the first argument is
  fuel: the number of nested calls allowed, \<open>None\<close> when it does not suffice.
  The result is the returned list together with the state of the shared set;
  the recursive call discards the list and keeps the set.  \<^verbatim>\<open>!pkgContent\<close> and
  \<^verbatim>\<open>!entry\<close> also hold for the empty string, and \<^verbatim>\<open>/\.m?js$/\<close> accepts a path
  that ends in \<^verbatim>\<open>.js\<close> or in \<^verbatim>\<open>.mjs\<close>.
\<close>

fun resolveSSRExternal ::
    "nat \<Rightarrow> ssr_host \<Rightarrow> resolved_config \<Rightarrow> string list \<Rightarrow> ssr_state
      \<Rightarrow> (ssr_error + string list \<times> ssr_state) option"
  and deps_loop ::
    "nat \<Rightarrow> ssr_host \<Rightarrow> resolved_config \<Rightarrow> string list \<Rightarrow> string list \<Rightarrow> ssr_state
      \<Rightarrow> (ssr_error + ssr_state) option"
where
  "resolveSSRExternal 0 h config knownImports st = None"
| "resolveSSRExternal (Suc n) h config knownImports st =
    (case lookupFile h (root config) of
       None \<Rightarrow> Some (Inr ([], st))
     | Some pkgContent \<Rightarrow>
         if pkgContent = [] then Some (Inr ([], st))
         else
           (case JSON_parse h pkgContent of
              None \<Rightarrow> Some (Inl JsonSyntaxError)
            | Some pkg \<Rightarrow>
                if is_nullish pkg then Some (Inl ManifestTypeError)
                else
                  (let devDeps = dep_names pkg ''devDependencies'';
                       deps = knownImports @ dep_names pkg ''dependencies'';
                       st1 = fold set_add devDeps st
                   in case deps_loop n h config knownImports deps st1 of
                        None \<Rightarrow> None
                      | Some (Inl e) \<Rightarrow> Some (Inl e)
                      | Some (Inr st2) \<Rightarrow> Some (Inr (finish config st2)))))"
| "deps_loop n h config knownImports [] st = Some (Inr st)"
| "deps_loop n h config knownImports (ident # rest) st =
    (let st = note_probe (Resolve ident) st in
     case tryNodeResolve h ident (root config) of
       None \<Rightarrow> deps_loop n h config knownImports rest st
     | Some entry \<Rightarrow>
         (case require_resolve h ident (root config) of
            None \<Rightarrow> deps_loop n h config knownImports rest st
          | Some requireEntry \<Rightarrow>
              if entry = None \<or> entry = Some [] then
                deps_loop n h config knownImports rest (set_add ident st)
              else if \<not> str_includes (the entry) ''node_modules'' then
                (case resolveFrom h (ident @ ''/package.json'') (root config) of
                   None \<Rightarrow> Some (Inl ResolveFromError)
                 | Some pkgPath \<Rightarrow>
                     (case resolveSSRExternal n h (config\<lparr>root := path_dirname h pkgPath\<rparr>)
                             knownImports st of
                        None \<Rightarrow> None
                      | Some (Inl e) \<Rightarrow> Some (Inl e)
                      | Some (Inr (unused, st')) \<Rightarrow> deps_loop n h config knownImports rest st'))
              else if the entry \<noteq> requireEntry then
                deps_loop n h config knownImports rest (set_add ident st)
              else if \<not> (endsWith (the entry) ''.js'' \<or> endsWith (the entry) ''.mjs'') then
                deps_loop n h config knownImports rest st
              else
                (case readFileSync h (the entry) of
                   None \<Rightarrow> Some (Inl ReadFileError)
                 | Some content \<Rightarrow>
                     (let st = note_probe (Scan ident) st in
                      if cjs_test h content
                      then deps_loop n h config knownImports rest (set_add ident st)
                      else deps_loop n h config knownImports rest st))))"

text \<open>The ids listed in \<^verbatim>\<open>ssr.external\<close> and in \<^verbatim>\<open>ssr.noExternal\<close>.\<close>

definition external_ids :: "resolved_config \<Rightarrow> string set" where
  "external_ids config =
    (case ssr config of None \<Rightarrow> {} | Some opts \<Rightarrow> (case external opts of None \<Rightarrow> {} | Some ext \<Rightarrow> set ext))"

definition noExternal_ids :: "resolved_config \<Rightarrow> string set" where
  "noExternal_ids config =
    (case ssr config of None \<Rightarrow> {} | Some opts \<Rightarrow> (case noExternal opts of None \<Rightarrow> {} | Some ne \<Rightarrow> set ne))"

text \<open>Every name under \<^verbatim>\<open>dependencies\<close> in a manifest the host can serve.\<close>

definition dependency_names :: "ssr_host \<Rightarrow> string set" where
  "dependency_names h =
    {d. \<exists>r c pkg. lookupFile h r = Some c \<and> JSON_parse h c = Some pkg \<and>
                  d \<in> set (dep_names pkg ''dependencies'')}"

text \<open>
  What the loop body decides for one candidate.  It is a function of the
  host, the root and the id alone: the set of externals is not consulted.
\<close>

datatype verdict = Skip | Externalize | ScanThen bool | Descend string | Raise ssr_error

definition classify :: "ssr_host \<Rightarrow> string \<Rightarrow> string \<Rightarrow> verdict" where
  "classify h rt ident =
    (case tryNodeResolve h ident rt of
       None \<Rightarrow> Skip
     | Some entry \<Rightarrow>
         (case require_resolve h ident rt of
            None \<Rightarrow> Skip
          | Some requireEntry \<Rightarrow>
              if entry = None \<or> entry = Some [] then Externalize
              else if \<not> str_includes (the entry) ''node_modules'' then
                (case resolveFrom h (ident @ ''/package.json'') rt of
                   None \<Rightarrow> Raise ResolveFromError
                 | Some pkgPath \<Rightarrow> Descend (path_dirname h pkgPath))
              else if the entry \<noteq> requireEntry then Externalize
              else if \<not> (endsWith (the entry) ''.js'' \<or> endsWith (the entry) ''.mjs'') then Skip
              else (case readFileSync h (the entry) of
                      None \<Rightarrow> Raise ReadFileError
                    | Some content \<Rightarrow> ScanThen (cjs_test h content))))"


text \<open>The outcome of a run with the set of externals forgotten: the error, or the log.\<close>

definition loop_trace :: "(ssr_error + ssr_state) option \<Rightarrow> (ssr_error + probe list) option" where
  "loop_trace r = map_option (map_sum (\<lambda>e. e) probes) r"

definition pass_trace :: "(ssr_error + string list \<times> ssr_state) option \<Rightarrow> (ssr_error + probe list) option" where
  "pass_trace r = map_option (map_sum (\<lambda>e. e) (\<lambda>(xs, st). probes st)) r"

text \<open>
  Two hosts for concrete runs.  In the first no package resolves (both
  resolvers throw); in the second every package resolves, for both resolvers,
  to the same script inside \<^verbatim>\<open>node_modules\<close>, whose text carries a CommonJS
  marker.  Both serve the given parsed manifest for every root.
\<close>

definition unresolvable_host :: "jsval \<Rightarrow> ssr_host" where
  "unresolvable_host pkg =
    \<lparr>lookupFile = (\<lambda>r. Some ''package.json''),
     JSON_parse = (\<lambda>c. Some pkg),
     tryNodeResolve = (\<lambda>i r. None),
     require_resolve = (\<lambda>i r. None),
     resolveFrom = (\<lambda>s r. None),
     path_dirname = (\<lambda>p. p),
     readFileSync = (\<lambda>p. None),
     cjs_test = (\<lambda>c. False)\<rparr>"

definition commonjs_host :: "jsval \<Rightarrow> ssr_host" where
  "commonjs_host pkg =
    \<lparr>lookupFile = (\<lambda>r. Some ''package.json''),
     JSON_parse = (\<lambda>c. Some pkg),
     tryNodeResolve = (\<lambda>i r. Some (Some (r @ ''/node_modules/'' @ i @ ''/index.js''))),
     require_resolve = (\<lambda>i r. Some (r @ ''/node_modules/'' @ i @ ''/index.js'')),
     resolveFrom = (\<lambda>s r. None),
     path_dirname = (\<lambda>p. p),
     readFileSync = (\<lambda>p. Some ''module.exports = {}''),
     cjs_test = (\<lambda>c. True)\<rparr>"

definition sample_manifest :: jsval where
  "sample_manifest =
    Obj [(''devDependencies'', Obj [(''mocha'', Str ''^8.0.0'')]),
         (''dependencies'', Obj [(''lodash'', Str ''^4.17.0'')])]"

definition foo_manifest :: jsval where
  "foo_manifest =
    Obj [(''devDependencies'', Obj [(''foo'', Str ''^1.0.0'')]),
         (''dependencies'', Obj [(''foo'', Str ''^1.0.0'')])]"

text \<open>
  Two more hosts.  In the first the root package depends on \<^verbatim>\<open>lib\<close>, which
  resolves outside \<^verbatim>\<open>node_modules\<close> (a linked package) and itself depends on a
  CommonJS package \<^verbatim>\<open>dep\<close>.  In the second every package is linked and
  depends on \<^verbatim>\<open>self\<close>, which resolves to the package itself.
\<close>

definition linked_host :: ssr_host where
  "linked_host =
    \<lparr>lookupFile = (\<lambda>r. Some r),
     JSON_parse = (\<lambda>c. if c = ''/app'' then Some (Obj [(''dependencies'', Obj [(''lib'', Str ''*'')])])
                       else Some (Obj [(''dependencies'', Obj [(''dep'', Str ''*'')])])),
     tryNodeResolve = (\<lambda>i r. if i = ''lib'' then Some (Some ''/ws/lib/index.js'')
                             else Some (Some (r @ ''/node_modules/'' @ i @ ''/index.js''))),
     require_resolve = (\<lambda>i r. if i = ''lib'' then Some ''/ws/lib/index.js''
                              else Some (r @ ''/node_modules/'' @ i @ ''/index.js'')),
     resolveFrom = (\<lambda>s r. Some ''/ws/lib''),
     path_dirname = (\<lambda>p. p),
     readFileSync = (\<lambda>p. Some ''module.exports = {}''),
     cjs_test = (\<lambda>c. True)\<rparr>"

definition cyclic_host :: ssr_host where
  "cyclic_host =
    \<lparr>lookupFile = (\<lambda>r. Some ''package.json''),
     JSON_parse = (\<lambda>c. Some (Obj [(''dependencies'', Obj [(''self'', Str ''*'')])])),
     tryNodeResolve = (\<lambda>i r. Some (Some ''/ws/self/index.js'')),
     require_resolve = (\<lambda>i r. Some ''/ws/self/index.js''),
     resolveFrom = (\<lambda>s r. Some ''/ws/self/package.json''),
     path_dirname = (\<lambda>p. ''/ws/self''),
     readFileSync = (\<lambda>p. None),
     cjs_test = (\<lambda>c. False)\<rparr>"

section \<open>Plugin Lifecycle Pipeline\<close>

text \<open>
  The fields of a \<^verbatim>\<open>Plugin\<close> that config resolution reads.  \<^verbatim>\<open>enforce\<close> is
  \<^verbatim>\<open>'pre'\<close>, \<^verbatim>\<open>'post'\<close> or absent, \<^verbatim>\<open>apply\<close> is a command or absent, and each
  hook is present or not.  A hook is user code: it is a function from what it
  is given to either an exception or a returned value.
\<close>

datatype command = Build | Serve

datatype enforce_tag = Pre | Post

datatype hook_result = Throws | Returns jsval

record plugin =
  name :: string
  enforce :: "enforce_tag option"
  apply_field :: "command option"
  config_hook :: "(js_record \<Rightarrow> command \<times> string \<Rightarrow> hook_result) option"
  configResolved_hook :: "(js_record \<Rightarrow> hook_result) option"

text \<open>An element of \<^verbatim>\<open>config.plugins\<close> is a plugin or an array of plugins.\<close>

datatype plugin_option = Single plugin | Many "plugin list"

text \<open>\<^verbatim>\<open>Array.prototype.flat()\<close>, one level deep.\<close>

fun flat :: "plugin_option list \<Rightarrow> plugin list" where
  "flat [] = []"
| "flat (Single p # rest) = p # flat rest"
| "flat (Many ps # rest) = ps @ flat rest"

text \<open>
  \<^verbatim>\<open>(config.plugins || []).flat().filter((p) => !p.apply || p.apply === command)\<close>
\<close>

definition rawUserPlugins :: "command \<Rightarrow> plugin_option list option \<Rightarrow> plugin list" where
  "rawUserPlugins cmd plugins =
    filter (\<lambda>p. apply_field p = None \<or> apply_field p = Some cmd)
      (flat (case plugins of None \<Rightarrow> [] | Some ps \<Rightarrow> ps))"

text \<open>
  \<^verbatim>\<open>sortUserPlugins\<close>: the \<^verbatim>\<open>forEach\<close> pushes each plugin onto one of three
  arrays, which are returned as \<^verbatim>\<open>[prePlugins, normalPlugins, postPlugins]\<close>.
\<close>

fun sort_forEach ::
    "plugin list \<Rightarrow> plugin list \<times> plugin list \<times> plugin list
      \<Rightarrow> plugin list \<times> plugin list \<times> plugin list" where
  "sort_forEach [] acc = acc"
| "sort_forEach (p # ps) (prePlugins, postPlugins, normalPlugins) =
    (if enforce p = Some Pre then sort_forEach ps (prePlugins @ [p], postPlugins, normalPlugins)
     else if enforce p = Some Post then sort_forEach ps (prePlugins, postPlugins @ [p], normalPlugins)
     else sort_forEach ps (prePlugins, postPlugins, normalPlugins @ [p]))"

definition sortUserPlugins ::
    "plugin_option list option \<Rightarrow> plugin list \<times> plugin list \<times> plugin list" where
  "sortUserPlugins plugins =
    (case plugins of
       None \<Rightarrow> ([], [], [])
     | Some ps \<Rightarrow>
         (case sort_forEach (flat ps) ([], [], []) of
            (prePlugins, postPlugins, normalPlugins) \<Rightarrow> (prePlugins, normalPlugins, postPlugins)))"

text \<open>
  \<^verbatim>\<open>const userPlugins = [...prePlugins, ...normalPlugins, ...postPlugins]\<close>, from
  the filtered list.
\<close>

definition userPlugins :: "command \<Rightarrow> plugin_option list option \<Rightarrow> plugin list" where
  "userPlugins cmd plugins =
    (case sortUserPlugins (Some (map Single (rawUserPlugins cmd plugins))) of
       (prePlugins, normalPlugins, postPlugins) \<Rightarrow> prePlugins @ normalPlugins @ postPlugins)"

text \<open>
  What aborts the resolution in the plugin part: a hook that throws, or the
  merge of a hook's result raising.
\<close>

datatype hook_error = HookThrew | MergeRaised js_error

text \<open>
  \<^verbatim>\<open>for (const key in res)\<close> on what a hook returned: the own enumerable keys
  with their values.
\<close>

definition as_record :: "jsval \<Rightarrow> js_record" where
  "as_record v = (case own_entries v of Inl e \<Rightarrow> [] | Inr es \<Rightarrow> es)"

text \<open>
  The loop that runs the \<^verbatim>\<open>config\<close> hooks: \<^verbatim>\<open>p.config(config, configEnv)\<close> on
  the current \<^verbatim>\<open>config\<close>, and \<^verbatim>\<open>config = mergeConfig(config, res)\<close> when the hook
  returned something truthy.  The first component of the result is a ghost log
  of the invocations in their order, each with the config that the hook was
  handed; it is kept when the loop aborts.
\<close>

fun run_config_hooks ::
    "plugin list \<Rightarrow> command \<times> string \<Rightarrow> js_record \<Rightarrow> (plugin \<times> js_record) list
      \<Rightarrow> (plugin \<times> js_record) list \<times> (hook_error + js_record)" where
  "run_config_hooks [] configEnv config invoked = (invoked, Inr config)"
| "run_config_hooks (p # ps) configEnv config invoked =
    (case config_hook p of
       None \<Rightarrow> run_config_hooks ps configEnv config invoked
     | Some hook \<Rightarrow>
         (case hook config configEnv of
            Throws \<Rightarrow> (invoked @ [(p, config)], Inl HookThrew)
          | Returns res \<Rightarrow>
              if truthy res then
                (case mergeConfig config (as_record res) True of
                   Inl e \<Rightarrow> (invoked @ [(p, config)], Inl (MergeRaised e))
                 | Inr merged \<Rightarrow> run_config_hooks ps configEnv merged (invoked @ [(p, config)]))
              else run_config_hooks ps configEnv config (invoked @ [(p, config)])))"

text \<open>
  The loop that calls the \<^verbatim>\<open>configResolved\<close> hooks, \<^verbatim>\<open>p.configResolved(resolved)\<close>,
  with the same kind of log.
\<close>

fun run_configResolved_hooks ::
    "plugin list \<Rightarrow> js_record \<Rightarrow> (plugin \<times> js_record) list
      \<Rightarrow> (plugin \<times> js_record) list \<times> (hook_error + unit)" where
  "run_configResolved_hooks [] resolved invoked = (invoked, Inr ())"
| "run_configResolved_hooks (p # ps) resolved invoked =
    (case configResolved_hook p of
       None \<Rightarrow> run_configResolved_hooks ps resolved invoked
     | Some hook \<Rightarrow>
         (case hook resolved of
            Throws \<Rightarrow> (invoked @ [(p, resolved)], Inl HookThrew)
          | Returns res \<Rightarrow> run_configResolved_hooks ps resolved (invoked @ [(p, resolved)])))"

text \<open>
  The plugin part of \<^verbatim>\<open>resolveConfig\<close>: filter, sort, run the \<^verbatim>\<open>config\<close> hooks
  over \<^verbatim>\<open>userPlugins\<close>, build the resolved config, call the \<^verbatim>\<open>configResolved\<close>
  hooks over the same \<^verbatim>\<open>userPlugins\<close>.  The statements between the two hook passes
  are a parameter (\<open>resolve_rest\<close>, \<open>None\<close> when they throw).  The result is
  the order, the log and the outcome of the first pass, the log of the second
  pass and whether resolution went through.
\<close>

record pipeline_run =
  plugin_order :: "plugin list"
  config_calls :: "(plugin \<times> js_record) list"
  config_result :: "hook_error + js_record"
  configResolved_calls :: "(plugin \<times> js_record) list"
  completed :: bool

definition resolveConfig_plugins ::
    "(js_record \<Rightarrow> js_record option) \<Rightarrow> js_record \<Rightarrow> plugin_option list option
      \<Rightarrow> command \<Rightarrow> string \<Rightarrow> pipeline_run" where
  "resolveConfig_plugins resolve_rest config plugins cmd mode =
    (let ups = userPlugins cmd plugins in
     case run_config_hooks ups (cmd, mode) config [] of
       (calls, Inl e) \<Rightarrow>
         \<lparr>plugin_order = ups, config_calls = calls, config_result = Inl e,
          configResolved_calls = [], completed = False\<rparr>
     | (calls, Inr config') \<Rightarrow>
         (case resolve_rest config' of
            None \<Rightarrow>
              \<lparr>plugin_order = ups, config_calls = calls, config_result = Inr config',
               configResolved_calls = [], completed = False\<rparr>
          | Some resolved \<Rightarrow>
              (case run_configResolved_hooks ups resolved [] of
                 (calls', r) \<Rightarrow>
                   \<lparr>plugin_order = ups, config_calls = calls, config_result = Inr config',
                    configResolved_calls = calls', completed = (r = Inr ())\<rparr>)))"

text \<open>
  The two hook passes as the specification words them.  Each plugin in the
  order is visited with the accumulator: once a hook has thrown (or a merge
  has raised) the resolution is aborted and no later hook is invoked; a plugin
  without the hook is passed over; otherwise the hook is invoked with the
  accumulated config, and a value it returns is deep-merged onto the
  accumulator, which the later plugins observe.  The notification pass
  invokes each \<^verbatim>\<open>configResolved\<close> hook with the resolved config and ignores what
  it returns.
\<close>

definition spec_config_step ::
    "command \<times> string \<Rightarrow> (plugin \<times> js_record) list \<times> (hook_error + js_record) \<Rightarrow> plugin
      \<Rightarrow> (plugin \<times> js_record) list \<times> (hook_error + js_record)" where
  "spec_config_step configEnv st p =
    (case st of
       (calls, Inl aborted) \<Rightarrow> (calls, Inl aborted)
     | (calls, Inr accumulated) \<Rightarrow>
         (case config_hook p of
            None \<Rightarrow> (calls, Inr accumulated)
          | Some hook \<Rightarrow>
              (calls @ [(p, accumulated)],
               case hook accumulated configEnv of
                 Throws \<Rightarrow> Inl HookThrew
               | Returns partial \<Rightarrow>
                   if truthy partial
                   then (case mergeConfig accumulated (as_record partial) True of
                           Inl e \<Rightarrow> Inl (MergeRaised e)
                         | Inr merged \<Rightarrow> Inr merged)
                   else Inr accumulated)))"

definition spec_config_phase ::
    "plugin list \<Rightarrow> command \<times> string \<Rightarrow> js_record
      \<Rightarrow> (plugin \<times> js_record) list \<times> (hook_error + js_record)" where
  "spec_config_phase ups configEnv config = foldl (spec_config_step configEnv) ([], Inr config) ups"

definition spec_notify_step ::
    "js_record \<Rightarrow> (plugin \<times> js_record) list \<times> (hook_error + unit) \<Rightarrow> plugin
      \<Rightarrow> (plugin \<times> js_record) list \<times> (hook_error + unit)" where
  "spec_notify_step resolved st p =
    (case st of
       (calls, Inl aborted) \<Rightarrow> (calls, Inl aborted)
     | (calls, Inr u) \<Rightarrow>
         (case configResolved_hook p of
            None \<Rightarrow> (calls, Inr ())
          | Some hook \<Rightarrow>
              (calls @ [(p, resolved)],
               case hook resolved of Throws \<Rightarrow> Inl HookThrew | Returns r \<Rightarrow> Inr ())))"

definition spec_notify_phase ::
    "plugin list \<Rightarrow> js_record \<Rightarrow> (plugin \<times> js_record) list \<times> (hook_error + unit)" where
  "spec_notify_phase ups resolved = foldl (spec_notify_step resolved) ([], Inr ()) ups"

text \<open>The four plugins of the specification's ordering example, without hooks.\<close>

definition mk_plugin :: "string \<Rightarrow> enforce_tag option \<Rightarrow> plugin" where
  "mk_plugin n e =
    \<lparr>name = n, enforce = e, apply_field = None, config_hook = None, configResolved_hook = None\<rparr>"

text \<open>
  Plugins with both hooks.  The \<^verbatim>\<open>config\<close> hook of \<open>hooked_plugin\<close> returns
  nothing and \<open>only_for\<close> sets its \<^verbatim>\<open>apply\<close>; the one of \<open>returning_plugin\<close>
  returns the given partial config; the one of \<open>guard_plugin\<close> throws when the
  config it is handed has the given key and returns nothing otherwise.
\<close>

definition hooked_plugin :: "string \<Rightarrow> enforce_tag option \<Rightarrow> command option \<Rightarrow> plugin" where
  "hooked_plugin n e only_for =
    \<lparr>name = n, enforce = e, apply_field = only_for,
     config_hook = Some (\<lambda>config configEnv. Returns Undefined),
     configResolved_hook = Some (\<lambda>resolved. Returns Undefined)\<rparr>"

definition returning_plugin :: "string \<Rightarrow> enforce_tag option \<Rightarrow> js_record \<Rightarrow> plugin" where
  "returning_plugin n e partial =
    \<lparr>name = n, enforce = e, apply_field = None,
     config_hook = Some (\<lambda>config configEnv. Returns (Obj partial)),
     configResolved_hook = Some (\<lambda>resolved. Returns Undefined)\<rparr>"

definition guard_plugin :: "string \<Rightarrow> enforce_tag option \<Rightarrow> string \<Rightarrow> plugin" where
  "guard_plugin n e key =
    \<lparr>name = n, enforce = e, apply_field = None,
     config_hook = Some (\<lambda>config configEnv. if js_get config key = Undefined then Returns Undefined else Throws),
     configResolved_hook = Some (\<lambda>resolved. Returns Undefined)\<rparr>"

section \<open>Environment loading\<close>

text \<open>
  \<^verbatim>\<open>loadEnv(mode, root, prefix = 'VITE_')\<close>.  The environment of the process and
  every parsed file are objects with string values, kept as lists of their
  entries.  The helpers the function calls are parameters:
  \<open>env_lookupFile h root file\<close> is \<^verbatim>\<open>lookupFile(root, [file], true)\<close>;
  \<open>env_readFile\<close> is \<^verbatim>\<open>fs.readFileSync\<close> (\<open>None\<close> when it throws);
  \<open>dotenv_parse\<close> and \<open>dotenv_expand\<close> are the two library calls, the second
  one rewriting the parsed object in place; \<open>inherited_member\<close> tells the names
  that the fresh object \<^verbatim>\<open>env = {}\<close> inherits from \<^verbatim>\<open>Object.prototype\<close>, for which
  \<^verbatim>\<open>env[key] === undefined\<close> is false although the key was never assigned.
\<close>

type_synonym env_record = "(string \<times> string) list"

record env_host =
  env_lookupFile :: "string \<Rightarrow> string \<Rightarrow> string option"
  env_readFile :: "string \<Rightarrow> string option"
  dotenv_parse :: "string \<Rightarrow> env_record"
  dotenv_expand :: "env_record \<Rightarrow> env_record"
  inherited_member :: "string \<Rightarrow> bool"

datatype env_error = LocalModeError | EnvReadError

definition env_get :: "env_record \<Rightarrow> string \<Rightarrow> string" where
  "env_get e key = (case map_of e key of None \<Rightarrow> [] | Some v \<Rightarrow> v)"

text \<open>\<^verbatim>\<open>env[key] === undefined\<close>\<close>

definition env_undefined :: "env_host \<Rightarrow> env_record \<Rightarrow> string \<Rightarrow> bool" where
  "env_undefined h env key = (map_of env key = None \<and> \<not> inherited_member h key)"

definition envFiles :: "string \<Rightarrow> string list" where
  "envFiles mode = [''.env.'' @ mode @ ''.local'', ''.env.'' @ mode, ''.env.local'', ''.env'']"

text \<open>\<^verbatim>\<open>for (const key in process.env)\<close>\<close>

fun process_env_loop ::
    "env_host \<Rightarrow> string \<Rightarrow> env_record \<Rightarrow> string list \<Rightarrow> env_record \<Rightarrow> env_record" where
  "process_env_loop h prefix' penv [] env = env"
| "process_env_loop h prefix' penv (key # keys) env =
    (if startsWith key prefix' \<and> env_undefined h env key
     then process_env_loop h prefix' penv keys (AList.update key (env_get penv key) env)
     else process_env_loop h prefix' penv keys env)"

text \<open>
  \<^verbatim>\<open>for (const [key, value] of Object.entries(parsed))\<close>; the state is \<^verbatim>\<open>env\<close>
  and the environment of the process, which the \<^verbatim>\<open>NODE_ENV\<close> branch writes to.
\<close>

fun entries_loop ::
    "env_host \<Rightarrow> string \<Rightarrow> (string \<times> string) list \<Rightarrow> env_record \<times> env_record
      \<Rightarrow> env_record \<times> env_record" where
  "entries_loop h prefix' [] (env, penv) = (env, penv)"
| "entries_loop h prefix' ((key, val) # rest) (env, penv) =
    (if startsWith key prefix' \<and> env_undefined h env key
     then entries_loop h prefix' rest (AList.update key val env, penv)
     else if key = ''NODE_ENV''
     then entries_loop h prefix' rest (env, AList.update ''VITE_USER_NODE_ENV'' val penv)
     else entries_loop h prefix' rest (env, penv))"

text \<open>\<^verbatim>\<open>for (const file of envFiles)\<close>; \<^verbatim>\<open>if (path)\<close> fails for no path and for the empty one.\<close>

fun files_loop ::
    "env_host \<Rightarrow> string \<Rightarrow> string \<Rightarrow> string list \<Rightarrow> env_record \<times> env_record
      \<Rightarrow> env_error + env_record \<times> env_record" where
  "files_loop h root' prefix' [] st = Inr st"
| "files_loop h root' prefix' (file # files) st =
    (case env_lookupFile h root' file of
       None \<Rightarrow> files_loop h root' prefix' files st
     | Some path \<Rightarrow>
         if path = [] then files_loop h root' prefix' files st
         else
           (case env_readFile h path of
              None \<Rightarrow> Inl EnvReadError
            | Some content \<Rightarrow>
                (let parsed = dotenv_expand h (dotenv_parse h content)
                 in files_loop h root' prefix' files (entries_loop h prefix' parsed st))))"

definition loadEnv ::
    "env_host \<Rightarrow> env_record \<Rightarrow> string \<Rightarrow> string \<Rightarrow> string
      \<Rightarrow> env_error + env_record \<times> env_record" where
  "loadEnv h penv mode root' prefix' =
    (if mode = ''local'' then Inl LocalModeError
     else files_loop h root' prefix' (envFiles mode)
            (process_env_loop h prefix' penv (map fst penv) [], penv))"

text \<open>A project with one \<^verbatim>\<open>.env\<close> file, for a concrete run.\<close>

definition sample_env_host :: env_host where
  "sample_env_host =
    \<lparr>env_lookupFile = (\<lambda>r file. if file = ''.env'' then Some (r @ ''/.env'') else None),
     env_readFile = (\<lambda>path. Some ''VITE_A=1 SECRET=2 NODE_ENV=production''),
     dotenv_parse = (\<lambda>content. [(''VITE_A'', ''1''), (''SECRET'', ''2''), (''NODE_ENV'', ''production'')]),
     dotenv_expand = (\<lambda>parsed. parsed),
     inherited_member = (\<lambda>key. key = ''toString'')\<rparr>"

section \<open>Config Loader\<close>

text \<open>
  What a config module exports by default: nothing usable (any falsy value),
  a plain object, a function of the config environment, or some other truthy
  value.
\<close>

datatype config_export =
    ExportNothing
  | ExportObject js_record
  | ExportFunction "command \<times> string \<Rightarrow> hook_result"
  | ExportOther jsval

text \<open>A host operation either throws, with the error's message, or yields a value.\<close>

datatype 'a attempt = Failed string | Ok 'a

text \<open>
  The file system is the list of the existing paths with their contents.
  \<^verbatim>\<open>fs.unlinkSync\<close> throws on a path that does not exist.
\<close>

type_synonym file_system = "(string \<times> string) list"

definition existsSync :: "file_system \<Rightarrow> string \<Rightarrow> bool" where
  "existsSync files path = (map_of files path \<noteq> None)"

definition writeFileSync :: "string \<Rightarrow> string \<Rightarrow> file_system \<Rightarrow> file_system" where
  "writeFileSync path content files = AList.update path content files"

definition unlinkSync :: "string \<Rightarrow> file_system \<Rightarrow> file_system attempt" where
  "unlinkSync path files =
    (if existsSync files path then Ok (AList.delete path files) else Failed ''ENOENT'')"

text \<open>
  The collaborators of the loader.  \<open>pkg_type_module r\<close> is the outcome of
  the guarded block that reads the nearest \<^verbatim>\<open>package.json\<close> of \<open>r\<close> and tests
  \<^verbatim>\<open>type === 'module'\<close> (an exception there leaves the flag unset).
  \<open>bundleConfigFile\<close> and \<open>loadConfigFromBundledFile\<close> stand for the two
  functions of that name, which consist of calls into the bundler and the
  module loader; \<open>dynamic_import\<close> is the \<^verbatim>\<open>import()\<close> of a URL, which reads the
  file system, and \<open>require_module\<close> is \<^verbatim>\<open>require\<close> after the cache entry is
  dropped; both yield the module's default export.  \<open>now\<close> is \<^verbatim>\<open>Date.now()\<close>
  as text.  \<open>write_allowed\<close> tells where \<^verbatim>\<open>fs.writeFileSync\<close> succeeds.
\<close>

record loader_host =
  pkg_type_module :: "string \<Rightarrow> bool"
  path_resolve :: "string \<Rightarrow> string"
  path_resolve_in :: "string \<Rightarrow> string \<Rightarrow> string"
  pathToFileURL :: "string \<Rightarrow> string"
  now :: string
  bundleConfigFile :: "string \<Rightarrow> bool \<Rightarrow> string attempt"
  write_allowed :: "string \<Rightarrow> bool"
  dynamic_import :: "file_system \<Rightarrow> string \<Rightarrow> config_export attempt"
  require_module :: "string \<Rightarrow> config_export attempt"
  loadConfigFromBundledFile :: "string \<Rightarrow> string \<Rightarrow> config_export attempt"
  normalizePath :: "string \<Rightarrow> string"

text \<open>
  The discovery at the head of \<^verbatim>\<open>loadConfigFromFile\<close>: the resolved path, if
  any, with the flags \<^verbatim>\<open>isTS\<close> and \<^verbatim>\<open>isMjs\<close>.  An explicit \<^verbatim>\<open>configFile\<close> (a
  non-empty string) is resolved from the working directory and sets neither
  flag.
\<close>

definition discover ::
    "loader_host \<Rightarrow> file_system \<Rightarrow> string option \<Rightarrow> string \<Rightarrow> string option \<times> bool \<times> bool" where
  "discover h files configFile configRoot =
    (let isMjs = pkg_type_module h configRoot in
     if configFile \<noteq> None \<and> configFile \<noteq> Some [] then
       (Some (path_resolve h (the configFile)), False, isMjs)
     else
       (let jsconfigFile = path_resolve_in h configRoot ''vite.config.js'';
            mjsconfigFile = path_resolve_in h configRoot ''vite.config.mjs'';
            tsconfigFile = path_resolve_in h configRoot ''vite.config.ts''
        in if existsSync files jsconfigFile then (Some jsconfigFile, False, isMjs)
           else if existsSync files mjsconfigFile then (Some mjsconfigFile, False, True)
           else if existsSync files tsconfigFile then (Some tsconfigFile, True, isMjs)
           else (None, False, isMjs)))"

text \<open>
  The branch \<^verbatim>\<open>if (isMjs)\<close>.  With \<^verbatim>\<open>isTS\<close> the four statements are: bundle,
  write the artifact \<^verbatim>\<open>resolvedPath + '.js'\<close>, import it, unlink it.  They are
  plain consecutive statements inside the function's \<^verbatim>\<open>try\<close>, so each one that
  throws ends the branch with the file system as it is at that point.
\<close>

definition load_esm ::
    "loader_host \<Rightarrow> file_system \<Rightarrow> string \<Rightarrow> bool \<Rightarrow> file_system \<times> config_export attempt" where
  "load_esm h files resolvedPath isTS =
    (let fileUrl = pathToFileURL h resolvedPath in
     if isTS then
       (case bundleConfigFile h resolvedPath True of
          Failed m \<Rightarrow> (files, Failed m)
        | Ok code \<Rightarrow>
            if \<not> write_allowed h (resolvedPath @ ''.js'') then (files, Failed ''EACCES'')
            else
              (let files1 = writeFileSync (resolvedPath @ ''.js'') code files in
               case dynamic_import h files1 (fileUrl @ ''.js?t='' @ now h) of
                 Failed m \<Rightarrow> (files1, Failed m)
               | Ok userConfig \<Rightarrow>
                   (case unlinkSync (resolvedPath @ ''.js'') files1 of
                      Failed m \<Rightarrow> (files1, Failed m)
                    | Ok files2 \<Rightarrow> (files2, Ok userConfig))))
     else (files, dynamic_import h files (fileUrl @ ''?t='' @ now h)))"

text \<open>
  The messages for which a failed \<^verbatim>\<open>require\<close> falls through to bundling: the
  regular expression joins four literal phrases, so it matches a message
  that contains one of them.
\<close>

definition ignored :: "string \<Rightarrow> bool" where
  "ignored message =
    list_ex (str_includes message)
      [''Cannot use import statement'', ''Must use import to load ES Module'',
       ''Unexpected token'', ''Unexpected identifier'']"

datatype load_error = LoadFailed string | ConfigFunctionThrew | NotAnObject

text \<open>
  \<^verbatim>\<open>loadConfigFromFile(configEnv, configFile, configRoot)\<close>: the file system
  after the call, and either the error that propagates (the \<^verbatim>\<open>catch\<close> logs and
  rethrows, the \<^verbatim>\<open>finally\<close> stops the bundler's service; neither touches a
  file) or the result, \<open>None\<close> for \<^verbatim>\<open>null\<close>.
\<close>

definition loadConfigFromFile ::
    "loader_host \<Rightarrow> file_system \<Rightarrow> command \<times> string \<Rightarrow> string option \<Rightarrow> string
      \<Rightarrow> file_system \<times> (load_error + (string \<times> js_record) option)" where
  "loadConfigFromFile h files configEnv configFile configRoot =
    (case discover h files configFile configRoot of
       (None, isTS, isMjs) \<Rightarrow> (files, Inr None)
     | (Some resolvedPath, isTS, isMjs) \<Rightarrow>
         (case (if isMjs then load_esm h files resolvedPath isTS else (files, Ok ExportNothing)) of
            (files1, Failed m) \<Rightarrow> (files1, Inl (LoadFailed m))
          | (files1, Ok userConfig1) \<Rightarrow>
              (case (if userConfig1 = ExportNothing \<and> \<not> isTS \<and> \<not> isMjs then
                       (case require_module h resolvedPath of
                          Ok exported \<Rightarrow> Ok exported
                        | Failed m \<Rightarrow> if ignored m then Ok ExportNothing else Failed m)
                     else Ok userConfig1) of
                 Failed m \<Rightarrow> (files1, Inl (LoadFailed m))
               | Ok userConfig2 \<Rightarrow>
                   (case (if userConfig2 = ExportNothing then
                            (case bundleConfigFile h resolvedPath False of
                               Failed m \<Rightarrow> Failed m
                             | Ok code \<Rightarrow> loadConfigFromBundledFile h resolvedPath code)
                          else Ok userConfig2) of
                      Failed m \<Rightarrow> (files1, Inl (LoadFailed m))
                    | Ok userConfig \<Rightarrow>
                        (case userConfig of
                           ExportObject config \<Rightarrow> (files1, Inr (Some (normalizePath h resolvedPath, config)))
                         | ExportFunction f \<Rightarrow>
                             (case f configEnv of
                                Throws \<Rightarrow> (files1, Inl (ConfigFunctionThrew))
                              | Returns v \<Rightarrow>
                                  if isObject v
                                  then (files1, Inr (Some (normalizePath h resolvedPath, props v)))
                                  else (files1, Inl NotAnObject))
                         | ExportNothing \<Rightarrow> (files1, Inl NotAnObject)
                         | ExportOther v \<Rightarrow> (files1, Inl NotAnObject))))))"

text \<open>
  A project whose manifest says \<^verbatim>\<open>type: module\<close> and whose only config file is
  \<^verbatim>\<open>vite.config.ts\<close>.  Bundling succeeds; \<open>import_outcome\<close> is what importing
  the written artifact yields.
\<close>

definition esm_ts_host :: "config_export attempt \<Rightarrow> loader_host" where
  "esm_ts_host import_outcome =
    \<lparr>pkg_type_module = (\<lambda>r. True),
     path_resolve = (\<lambda>p. p),
     path_resolve_in = (\<lambda>r n. r @ ''/'' @ n),
     pathToFileURL = (\<lambda>p. ''file://'' @ p),
     now = ''1613400000000'',
     bundleConfigFile = (\<lambda>p mjs. Ok ''export default {}''),
     write_allowed = (\<lambda>p. True),
     dynamic_import = (\<lambda>files url. import_outcome),
     require_module = (\<lambda>p. Failed ''Cannot use import statement outside a module''),
     loadConfigFromBundledFile = (\<lambda>p code. Failed ''not reached''),
     normalizePath = (\<lambda>p. p)\<rparr>"

definition ts_project :: file_system where
  "ts_project = [(''/app/package.json'', ''{ type: module }''), (''/app/vite.config.ts'', ''export default {}'')]"

section \<open>Properties of the runtime matcher\<close>

lemma startsWith_iff_append: "startsWith s p \<longleftrightarrow> (\<exists>rest. s = p @ rest)"
  unfolding startsWith_def
proof
  assume "take (length p) s = p"
  then have "s = p @ drop (length p) s"
    by (metis append_take_drop_id)
  then show "\<exists>rest. s = p @ rest" ..
next
  assume "\<exists>rest. s = p @ rest"
  then show "take (length p) s = p" by auto
qed

lemma endsWith_iff_append: "endsWith s p \<longleftrightarrow> (\<exists>stem. s = stem @ p)"
  unfolding endsWith_def
proof
  assume h: "length p \<le> length s \<and> drop (length s - length p) s = p"
  then have "s = take (length s - length p) s @ p"
    by (metis append_take_drop_id)
  then show "\<exists>stem. s = stem @ p" ..
next
  assume "\<exists>stem. s = stem @ p"
  then show "length p \<le> length s \<and> drop (length s - length p) s = p" by auto
qed

lemma extname_lodash_get: "extname ''lodash/get'' = []"
  by code_simp

lemma extname_lodash_style_css: "extname ''lodash/style.css'' = ''.css''"
  by code_simp

text \<open>
  C3.  For every import id and every externals list the matcher answers true
  exactly when some listed id equals the import id, or the import id is a
  deep import of it and has no file extension or ends in \<^verbatim>\<open>.js\<close>; and on the
  three inputs of the specification it answers true for \<^verbatim>\<open>lodash/get\<close>, false
  for \<^verbatim>\<open>lodash/style.css\<close> and false for \<^verbatim>\<open>lodash-es\<close>, each against the list
  \<^verbatim>\<open>[lodash]\<close>.
\<close>

theorem shouldExternalizeForSSR_spec:
  "(\<forall>ident externals. shouldExternalizeForSSR ident externals = spec_should_externalize ident externals)
   \<and> shouldExternalizeForSSR ''lodash/get'' [''lodash''] = True
   \<and> shouldExternalizeForSSR ''lodash/style.css'' [''lodash''] = False
   \<and> shouldExternalizeForSSR ''lodash-es'' [''lodash''] = False"
proof (intro conjI allI)
  fix ident externals
  have cb: "externalize_callback ident e \<longleftrightarrow>
      (ident = e \<or> (is_deep_import_of ident e \<and>
         (has_no_file_extension ident \<or> ends_in_plain_script_extension ident)))" for e
    by (simp add: externalize_callback_def is_deep_import_of_def has_no_file_extension_def
        ends_in_plain_script_extension_def startsWith_iff_append endsWith_iff_append)
  show "shouldExternalizeForSSR ident externals = spec_should_externalize ident externals"
    unfolding shouldExternalizeForSSR_def spec_should_externalize_def list_ex_iff
    using cb by blast
next
  show "shouldExternalizeForSSR ''lodash/get'' [''lodash''] = True"
    by (simp add: shouldExternalizeForSSR_def externalize_callback_def startsWith_def
        extname_lodash_get)
next
  show "shouldExternalizeForSSR ''lodash/style.css'' [''lodash''] = False"
    by (simp add: shouldExternalizeForSSR_def externalize_callback_def startsWith_def
        endsWith_def extname_lodash_style_css)
next
  show "shouldExternalizeForSSR ''lodash-es'' [''lodash''] = False"
    by (simp add: shouldExternalizeForSSR_def externalize_callback_def startsWith_def)
qed


section \<open>Properties of the Config Merger\<close>

lemma js_get_update: "js_get (AList.update key v merged) k = (if k = key then v else js_get merged k)"
  by (simp add: js_get_def update_conv')

lemma step_shape:
  "(if c0 then k0
    else if c1 then L v1
    else if c2 then (case mc of Inl e \<Rightarrow> Inl e | Inr m \<Rightarrow> L (Obj m))
    else if c3 then (case ma of Inl e \<Rightarrow> Inl e | Inr al \<Rightarrow> L al)
    else if c4 then L v4 else L v5)
   = (if c0 then k0
      else case (if c1 then Inr v1
                 else if c2 then (case mc of Inl e \<Rightarrow> Inl e | Inr m \<Rightarrow> Inr (Obj m))
                 else if c3 then ma
                 else if c4 then Inr v4 else Inr v5) of
             Inl e \<Rightarrow> Inl e
           | Inr v \<Rightarrow> L v)"
  by (cases mc; cases ma) simp_all

lemma merge_loop_step:
  "merge_loop b r (key # keys) merged =
    (if is_nullish (js_get b key) then merge_loop b r keys merged
     else (case merged_value r key (js_get merged key) (js_get b key) of
             Inl e \<Rightarrow> Inl e
           | Inr v \<Rightarrow> merge_loop b r keys (AList.update key v merged)))"
  unfolding merge_loop.simps merged_value_def Let_def
  by (rule step_shape)

lemma merge_loop_get:
  "distinct keys \<Longrightarrow> merge_loop b r keys merged = Inr m \<Longrightarrow>
     (if k \<in> set keys \<and> \<not> is_nullish (js_get b k)
      then merged_value r k (js_get merged k) (js_get b k) = Inr (js_get m k)
      else js_get m k = js_get merged k)"
proof (induction keys arbitrary: merged)
  case Nil
  then show ?case by simp
next
  case (Cons key keys)
  show ?case
  proof (cases "is_nullish (js_get b key)")
    case True
    with Cons.prems have "merge_loop b r keys merged = Inr m"
      by (simp only: merge_loop_step if_True)
    from Cons.IH[OF _ this] Cons.prems(1) True show ?thesis by auto
  next
    case False
    with Cons.prems obtain v where v: "merged_value r key (js_get merged key) (js_get b key) = Inr v"
      and rest: "merge_loop b r keys (AList.update key v merged) = Inr m"
      by (auto simp only: merge_loop_step if_False split: sum.splits)
    from Cons.IH[OF _ rest] Cons.prems(1) False v show ?thesis
      by (auto simp: js_get_update)
  qed
qed

lemma js_get_nullish_notin: "k \<notin> set (map fst b) \<Longrightarrow> is_nullish (js_get b k)"
  by (simp add: js_get_def is_nullish_def map_of_eq_None_iff[THEN iffD2])

lemma mergeConfig_get:
  assumes "distinct (map fst b)" "mergeConfig a b r = Inr m"
  shows "if is_nullish (js_get b k) then js_get m k = js_get a k
         else merged_value r k (js_get a k) (js_get b k) = Inr (js_get m k)"
proof -
  from assms(2) have loop: "merge_loop b r (map fst b) a = Inr m"
    by (simp only: mergeConfig.simps)
  show ?thesis
  proof (cases "is_nullish (js_get b k)")
    case True
    with merge_loop_get[OF assms(1) loop, of k] show ?thesis by simp
  next
    case False
    with js_get_nullish_notin[of k b] have "k \<in> set (map fst b)" by blast
    with merge_loop_get[OF assms(1) loop, of k] False show ?thesis by simp
  qed
qed

lemma merge_loop_total_if:
  assumes "\<And>key merged. \<not> is_nullish (js_get b key) \<Longrightarrow> key \<in> set keys \<Longrightarrow>
             \<exists>v. merged_value r key (js_get merged key) (js_get b key) = Inr v"
  shows "\<exists>m. merge_loop b r keys merged = Inr m"
  using assms
proof (induction keys arbitrary: merged)
  case Nil
  show ?case by simp
next
  case (Cons key keys)
  have IH: "\<exists>m. merge_loop b r keys merged' = Inr m" for merged'
    by (rule Cons.IH) (simp add: Cons.prems)
  show ?case
  proof (cases "is_nullish (js_get b key)")
    case True
    with IH[of merged] show ?thesis by (simp only: merge_loop_step if_True)
  next
    case False
    from Cons.prems[OF False, of merged] obtain v
      where v: "merged_value r key (js_get merged key) (js_get b key) = Inr v" by auto
    with False IH[of "AList.update key v merged"] show ?thesis
      by (simp only: merge_loop_step if_False sum.case)
  qed
qed

lemma mergeConfig_nested_total: "\<exists>m. mergeConfig a b False = Inr m"
proof (induction "size (Obj b)" arbitrary: a b rule: less_induct)
  case less
  have "\<exists>v. merged_value False key existing (js_get b key) = Inr v" for key existing
  proof (cases "isObject existing \<and> isObject (js_get b key)")
    case True
    then have "size (Obj (props (js_get b key))) < size (Obj b)"
      by (simp add: size_js_get del: jsval.size)
    from less[OF this, of "props existing"] show ?thesis
      by (auto simp: merged_value_def simp del: mergeConfig.simps)
  next
    case False
    then show ?thesis by (auto simp: merged_value_def simp del: mergeConfig.simps)
  qed
  then have "\<exists>m. merge_loop b False (map fst b) a = Inr m"
    by (intro merge_loop_total_if) blast
  then show ?case by (simp only: mergeConfig.simps)
qed

lemma normalizeSingleAlias_ok: "alias_entry_ok e \<Longrightarrow> \<exists>y. normalizeSingleAlias e = Inr y"
  by (cases e) (auto simp: normalizeSingleAlias_def)

lemma mapE_total: "(\<And>x. x \<in> set xs \<Longrightarrow> \<exists>y. f x = Inr y) \<Longrightarrow> \<exists>ys. mapE f xs = Inr ys"
proof (induction xs)
  case Nil
  show ?case by simp
next
  case (Cons x xs)
  then obtain y ys where "f x = Inr y" "mapE f xs = Inr ys"
    by (metis list.set_intros(1) list.set_intros(2))
  then show ?case by simp
qed

lemma digit_not_slash: "d < 10 \<Longrightarrow> ''0123456789'' ! d \<noteq> CHR ''/''"
proof -
  have "list_all (\<lambda>d. ''0123456789'' ! d \<noteq> CHR ''/'') [0..<10]"
    by code_simp
  then show "d < 10 \<Longrightarrow> ''0123456789'' ! d \<noteq> CHR ''/''"
    unfolding list_all_iff by (metis atLeastLessThan_iff set_upt zero_le)
qed

lemma alias_fields_alias_obj: "alias_fields (alias_obj f r) = Inr (f, r)"
  by (simp add: alias_obj_def js_get_def)

lemma normalizeSingleAlias_pair_ok:
  "\<not> endsWith k ''/'' \<or> is_Str r \<Longrightarrow> \<exists>y. normalizeSingleAlias (alias_obj (Str k) r) = Inr y"
  unfolding normalizeSingleAlias_def alias_fields_alias_obj by auto


lemma show_nat_not_slash: "\<not> endsWith (show_nat i) ''/''"
proof -
  have "\<exists>pre d. d < 10 \<and> show_nat i = pre @ [''0123456789'' ! d]"
  proof (cases "i < 10")
    case True
    then have "show_nat i = [] @ [''0123456789'' ! i]" by (subst show_nat.simps) simp
    with True show ?thesis by blast
  next
    case False
    then have "show_nat i = show_nat (i div 10) @ [''0123456789'' ! (i mod 10)]"
      by (subst show_nat.simps) simp
    moreover have "i mod 10 < 10" by simp
    ultimately show ?thesis by blast
  qed
  then obtain pre d where d: "d < 10" "show_nat i = pre @ [''0123456789'' ! d]" by blast
  show ?thesis
    using digit_not_slash[OF d(1)] d(2) by (simp add: endsWith_def)
qed

lemma normalizeAlias_ok:
  assumes "alias_ok v" "\<not> is_nullish v"
  shows "\<exists>xs. normalizeAlias v = Inr xs"
proof (cases "isArray v")
  case True
  with assms have "\<And>x. x \<in> set (elems v) \<Longrightarrow> \<exists>y. normalizeSingleAlias x = Inr y"
    by (auto simp: alias_ok_def list_all_iff intro: normalizeSingleAlias_ok)
  then have "\<exists>ys. mapE normalizeSingleAlias (elems v) = Inr ys"
    by (rule mapE_total)
  with True show ?thesis
    by (simp add: normalizeAlias_def)
next
  case False
  let ?f = "\<lambda>(find', replacement). normalizeSingleAlias (alias_obj (Str find') replacement)"
  from assms(2) obtain es where es: "own_entries v = Inr es"
    by (cases v) (simp_all add: is_nullish_def)
  have pair: "\<not> endsWith k ''/'' \<or> is_Str r" if "(k, r) \<in> set es" for k r
  proof (cases v)
    case (Obj kvs)
    with es that have kr: "k \<in> set (map fst kvs)" "r = js_get kvs k" by auto
    from assms(1) False Obj
    have "list_all (\<lambda>key. \<not> endsWith key ''/'' \<or> is_Str (js_get kvs key)) (map fst kvs)"
      by (simp add: alias_ok_def isObject_def)
    with kr(1) have "\<not> endsWith k ''/'' \<or> is_Str (js_get kvs k)"
      unfolding list_all_iff by blast
    then show ?thesis unfolding kr(2) .
  next
    case (Str s)
    with es that obtain i where "k = show_nat i" by auto
    then show ?thesis by (simp add: show_nat_not_slash)
  next
    case (Arr xs)
    with False show ?thesis by (simp add: isArray_def)
  qed (use es that in simp_all)
  have "\<exists>y. ?f x = Inr y" if "x \<in> set es" for x
  proof -
    obtain k r where x: "x = (k, r)" by (cases x)
    from pair[of k r] that x have "\<not> endsWith k ''/'' \<or> is_Str r" by simp
    then have "\<exists>y. normalizeSingleAlias (alias_obj (Str k) r) = Inr y"
      by (rule normalizeSingleAlias_pair_ok)
    with x show ?thesis by simp
  qed
  then have "\<exists>ys. mapE ?f es = Inr ys"
    by (rule mapE_total)
  with es False show ?thesis
    by (simp add: normalizeAlias_def)
qed

lemma mergeAlias_ok:
  assumes "alias_ok a" "alias_ok b" "\<not> is_nullish a" "\<not> is_nullish b"
  shows "\<exists>al. mergeAlias a b = Inr al"
proof -
  from normalizeAlias_ok[OF assms(1,3)] normalizeAlias_ok[OF assms(2,4)] assms(3,4)
  show ?thesis by (auto simp: mergeAlias_def is_nullish_def)
qed

lemma merged_value_root_total:
  assumes "key = ''alias'' \<Longrightarrow> alias_ok existing \<and> alias_ok val"
    and "\<not> is_nullish val"
  shows "\<exists>v. merged_value True key existing val = Inr v"
proof -
  obtain m where m: "mergeConfig (props existing) (props val) False = Inr m"
    using mergeConfig_nested_total by blast
  show ?thesis
  proof (cases "key = ''alias'' \<and> \<not> is_nullish existing")
    case True
    with assms mergeAlias_ok[of existing val] obtain al where "mergeAlias existing val = Inr al"
      by blast
    with m True show ?thesis by (simp add: merged_value_def del: mergeConfig.simps)
  next
    case False
    with m show ?thesis by (auto simp add: merged_value_def simp del: mergeConfig.simps)
  qed
qed

lemma mergeConfig_root_total:
  assumes "distinct (map fst b)" "alias_ok (js_get a ''alias'')" "alias_ok (js_get b ''alias'')"
  shows "\<exists>m. mergeConfig a b True = Inr m"
proof -
  have "\<exists>m. merge_loop b True keys merged = Inr m"
    if "distinct keys" "alias_ok (js_get merged ''alias'')" for keys merged
    using that
  proof (induction keys arbitrary: merged)
    case Nil
    show ?case by simp
  next
    case (Cons key keys)
    show ?case
    proof (cases "is_nullish (js_get b key)")
      case True
      with Cons show ?thesis by (simp only: merge_loop_step if_True distinct.simps)
    next
      case False
      from merged_value_root_total[of key "js_get merged key" "js_get b key"] False Cons.prems(2) assms(3)
      obtain v where v: "merged_value True key (js_get merged key) (js_get b key) = Inr v"
        by blast
      have rest: "\<exists>m. merge_loop b True keys (AList.update key v merged) = Inr m"
      proof (cases "key = ''alias''")
        case True
        with Cons.prems(1) have "''alias'' \<notin> set keys" by simp
        then have "\<And>k merged'. \<not> is_nullish (js_get b k) \<Longrightarrow> k \<in> set keys \<Longrightarrow>
            \<exists>v. merged_value True k (js_get merged' k) (js_get b k) = Inr v"
          by (intro merged_value_root_total) auto
        then show ?thesis by (rule merge_loop_total_if)
      next
        case False
        with Cons.prems have "distinct keys" "alias_ok (js_get (AList.update key v merged) ''alias'')"
          by (simp_all add: js_get_update)
        then show ?thesis by (rule Cons.IH)
      qed
      with v False show ?thesis by (simp only: merge_loop_step if_False sum.case)
    qed
  qed
  from this[OF assms(1,2)] show ?thesis by (simp only: mergeConfig.simps)
qed

lemma merge_loop_Inl:
  "distinct keys \<Longrightarrow> merge_loop b r keys merged = Inl e \<Longrightarrow>
     \<exists>key. key \<in> set keys \<and> \<not> is_nullish (js_get b key) \<and>
           merged_value r key (js_get merged key) (js_get b key) = Inl e"
proof (induction keys arbitrary: merged)
  case Nil
  then show ?case by simp
next
  case (Cons key keys)
  show ?case
  proof (cases "is_nullish (js_get b key)")
    case True
    with Cons.prems have "merge_loop b r keys merged = Inl e"
      by (simp only: merge_loop_step if_True)
    from Cons.IH[OF _ this] Cons.prems(1) show ?thesis by auto
  next
    case False
    show ?thesis
    proof (cases "merged_value r key (js_get merged key) (js_get b key)")
      case (Inl e')
      with False Cons.prems(2) have "e' = e"
        by (simp only: merge_loop_step if_False sum.case) simp
      with Inl False show ?thesis by auto
    next
      case (Inr v)
      with False Cons.prems(2) have "merge_loop b r keys (AList.update key v merged) = Inl e"
        by (simp only: merge_loop_step if_False sum.case)
      from Cons.IH[OF _ this] Cons.prems(1) obtain k where
        k: "k \<in> set keys" "\<not> is_nullish (js_get b k)"
           "merged_value r k (js_get (AList.update key v merged) k) (js_get b k) = Inl e"
        by auto
      with Cons.prems(1) have "k \<noteq> key" by auto
      with k show ?thesis by (auto simp: js_get_update)
    qed
  qed
qed

lemma merged_value_Inl:
  assumes "merged_value r key existing val = Inl e"
  shows "r \<and> key = ''alias'' \<and> \<not> is_nullish existing \<and>
         \<not> (isArray existing \<and> isArray val) \<and> \<not> (isObject existing \<and> isObject val) \<and>
         mergeAlias existing val = Inl e"
proof -
  obtain m where m: "mergeConfig (props existing) (props val) False = Inr m"
    using mergeConfig_nested_total by blast
  from assms m show ?thesis
    by (auto simp: merged_value_def split: if_splits)
qed

lemma mergeConfig_Inl_iff:
  assumes "distinct (map fst b)"
  shows "mergeConfig a b True = Inl e \<longleftrightarrow>
     (\<not> is_nullish (js_get a ''alias'') \<and> \<not> is_nullish (js_get b ''alias'') \<and>
      \<not> (isArray (js_get a ''alias'') \<and> isArray (js_get b ''alias'')) \<and>
      \<not> (isObject (js_get a ''alias'') \<and> isObject (js_get b ''alias'')) \<and>
      mergeAlias (js_get a ''alias'') (js_get b ''alias'') = Inl e)"
    (is "?L \<longleftrightarrow> ?R")
proof
  assume ?L
  then have "merge_loop b True (map fst b) a = Inl e" by (simp only: mergeConfig.simps)
  from merge_loop_Inl[OF assms this] obtain key where
    "\<not> is_nullish (js_get b key)" "merged_value True key (js_get a key) (js_get b key) = Inl e"
    by blast
  with merged_value_Inl[of True key "js_get a key" "js_get b key" e] show ?R by auto
next
  assume R: ?R
  show ?L
  proof (cases "mergeConfig a b True")
    case (Inl e')
    then have "merge_loop b True (map fst b) a = Inl e'" by (simp only: mergeConfig.simps)
    from merge_loop_Inl[OF assms this] obtain key where
      "\<not> is_nullish (js_get b key)" "merged_value True key (js_get a key) (js_get b key) = Inl e'"
      by blast
    with merged_value_Inl[of True key "js_get a key" "js_get b key" e'] R have "e' = e" by auto
    with Inl show ?thesis by simp
  next
    case (Inr m)
    from mergeConfig_get[OF assms Inr, of "''alias''"] R show ?thesis
      by (auto simp: merged_value_def)
  qed
qed

lemma mergeConfig_example_concat:
  "mergeConfig [(''a'', Arr [Num 1])] [(''a'', Arr [Num 2])] True = Inr [(''a'', Arr [Num 1, Num 2])]"
  by (simp add: mergeConfig.simps js_get_def is_nullish_def isArray_def)

lemma mergeConfig_example_replace:
  "mergeConfig [(''a'', Num 1)] [(''a'', Num 2)] True = Inr [(''a'', Num 2)]"
  by (simp add: mergeConfig.simps js_get_def is_nullish_def isArray_def isObject_def)

lemma mergeConfig_example_nullish:
  "mergeConfig [(''a'', Num 1)] [(''a'', Undefined)] True = Inr [(''a'', Num 1)]"
  by (simp add: mergeConfig.simps js_get_def is_nullish_def)

lemma mergeConfig_example_nested:
  "mergeConfig [(''a'', Obj [(''x'', Num 1)])] [(''a'', Obj [(''y'', Num 2)])] True
     = Inr [(''a'', Obj [(''x'', Num 1), (''y'', Num 2)])]"
  by (simp add: mergeConfig.simps js_get_def is_nullish_def isArray_def isObject_def)

text \<open>
  C4 as it is worded fails: two plain mappings under one key are neither
  nullish nor both sequences, yet the override's value does not replace the
  base's; the two are merged key by key.
\<close>

theorem mergeConfig_otherwise_counterexample:
  "mergeConfig [(''a'', Obj [(''x'', Num 1)])] [(''a'', Obj [(''y'', Num 2)])] True
     = Inr [(''a'', Obj [(''x'', Num 1), (''y'', Num 2)])]
   \<and> \<not> is_nullish (js_get [(''a'', Obj [(''y'', Num 2)])] ''a'')
   \<and> \<not> isArray (js_get [(''a'', Obj [(''y'', Num 2)])] ''a'')
   \<and> js_get [(''a'', Obj [(''x'', Num 1), (''y'', Num 2)])] ''a'' \<noteq> js_get [(''a'', Obj [(''y'', Num 2)])] ''a''"
  by (simp add: mergeConfig_example_nested js_get_def is_nullish_def isArray_def)

text \<open>
  C4 (amended).  Whenever \<^verbatim>\<open>mergeConfig\<close> returns a merged copy: a key that is
  absent from the override or nullish there keeps the base's value; two
  sequences are concatenated, base first, duplicates kept; and in every other
  case except two plain mappings (merged recursively) and a root-level
  \<^verbatim>\<open>alias\<close> or \<^verbatim>\<open>assetsInclude\<close> with a non-nullish base value (bespoke
  handling) the override's value replaces the base's.  The three examples of
  the specification evaluate as it says.
\<close>

theorem mergeConfig_generic_rules:
  "(\<forall>a b isRoot m key.
      distinct (map fst b) \<and> mergeConfig a b isRoot = Inr m \<longrightarrow>
        (is_nullish (js_get b key) \<longrightarrow> js_get m key = js_get a key) \<and>
        (isArray (js_get a key) \<and> isArray (js_get b key) \<longrightarrow>
           js_get m key = Arr (elems (js_get a key) @ elems (js_get b key))) \<and>
        (\<not> is_nullish (js_get b key) \<and>
         \<not> (isArray (js_get a key) \<and> isArray (js_get b key)) \<and>
         \<not> (isObject (js_get a key) \<and> isObject (js_get b key)) \<and>
         \<not> (isRoot \<and> \<not> is_nullish (js_get a key) \<and> (key = ''alias'' \<or> key = ''assetsInclude''))
         \<longrightarrow> js_get m key = js_get b key))
   \<and> mergeConfig [(''a'', Arr [Num 1])] [(''a'', Arr [Num 2])] True = Inr [(''a'', Arr [Num 1, Num 2])]
   \<and> mergeConfig [(''a'', Num 1)] [(''a'', Num 2)] True = Inr [(''a'', Num 2)]
   \<and> mergeConfig [(''a'', Num 1)] [(''a'', Undefined)] True = Inr [(''a'', Num 1)]"
proof (intro conjI allI impI; (elim conjE)?)
  fix a b isRoot m key
  assume d: "distinct (map fst b)" and mc: "mergeConfig a b isRoot = Inr m"
  note get = mergeConfig_get[OF d mc, of key]
  {
    assume "is_nullish (js_get b key)"
    with get show "js_get m key = js_get a key" by simp
  next
    assume arr: "isArray (js_get a key)" "isArray (js_get b key)"
    then have "\<not> is_nullish (js_get b key)" by (auto simp: is_nullish_def isArray_def)
    with get arr show "js_get m key = Arr (elems (js_get a key) @ elems (js_get b key))"
      by (simp add: merged_value_def)
  next
    assume "\<not> is_nullish (js_get b key)"
      "\<not> (isArray (js_get a key) \<and> isArray (js_get b key))"
      "\<not> (isObject (js_get a key) \<and> isObject (js_get b key))"
      "\<not> (isRoot \<and> \<not> is_nullish (js_get a key) \<and> (key = ''alias'' \<or> key = ''assetsInclude''))"
    with get show "js_get m key = js_get b key"
      by (auto simp: merged_value_def)
  }
qed (rule mergeConfig_example_concat mergeConfig_example_replace mergeConfig_example_nullish)+

text \<open>The rules of C4 at a concrete pair of mappings.\<close>

theorem mergeConfig_generic_rules_witness:
  "distinct (map fst [(''a'', Num 2), (''l'', Arr [Num 4]), (''u'', Null)])
   \<and> mergeConfig [(''a'', Num 1), (''l'', Arr [Num 3]), (''u'', Str ''keep'')]
                  [(''a'', Num 2), (''l'', Arr [Num 4]), (''u'', Null)] True
       = Inr [(''a'', Num 2), (''l'', Arr [Num 3, Num 4]), (''u'', Str ''keep'')]
   \<and> js_get [(''a'', Num 2), (''l'', Arr [Num 3, Num 4]), (''u'', Str ''keep'')] ''u'' = Str ''keep''
   \<and> js_get [(''a'', Num 2), (''l'', Arr [Num 3, Num 4]), (''u'', Str ''keep'')] ''l'' = Arr [Num 3, Num 4]
   \<and> js_get [(''a'', Num 2), (''l'', Arr [Num 3, Num 4]), (''u'', Str ''keep'')] ''a'' = Num 2"
proof -
  let ?a = "[(''a'', Num 1), (''l'', Arr [Num 3]), (''u'', Str ''keep'')]"
  let ?b = "[(''a'', Num 2), (''l'', Arr [Num 4]), (''u'', Null)]"
  let ?m = "[(''a'', Num 2), (''l'', Arr [Num 3, Num 4]), (''u'', Str ''keep'')]"
  have d: "distinct (map fst ?b)" by simp
  have mc: "mergeConfig ?a ?b True = Inr ?m"
    by (simp add: mergeConfig.simps js_get_def is_nullish_def isArray_def isObject_def)
  note rules = mergeConfig_generic_rules[THEN conjunct1, rule_format, OF conjI, OF d mc]
  have "js_get ?m ''u'' = js_get ?a ''u''"
    by (rule rules[THEN conjunct1, rule_format]) (simp add: js_get_def is_nullish_def)
  moreover have "js_get ?m ''l'' = Arr (elems (js_get ?a ''l'') @ elems (js_get ?b ''l''))"
    by (rule rules[THEN conjunct2, THEN conjunct1, rule_format]) (simp add: js_get_def isArray_def)
  moreover have "js_get ?m ''a'' = js_get ?b ''a''"
    by (rule rules[THEN conjunct2, THEN conjunct2, rule_format])
       (simp add: js_get_def isArray_def isObject_def is_nullish_def)
  ultimately show ?thesis using d mc by (simp add: js_get_def)
qed






text \<open>
  C9 as it is worded fails: a root-level \<^verbatim>\<open>alias\<close> array whose entry has a
  string \<^verbatim>\<open>find\<close> ending in a separator and a function as replacement, merged
  with an \<^verbatim>\<open>alias\<close> mapping, raises \<^verbatim>\<open>TypeError\<close> in \<^verbatim>\<open>normalizeSingleAlias\<close>.
\<close>

theorem mergeConfig_throws_counterexample:
  "mergeConfig [(''alias'', Arr [Obj [(''find'', Str ''/@/''), (''replacement'', Fn 0)]])]
               [(''alias'', Obj [(''/src/'', Str ''/root/'')])] True = Inl TypeError"
  by (simp add: mergeConfig.simps mergeAlias_def normalizeAlias_def normalizeSingleAlias_def
      js_get_def is_nullish_def isArray_def isObject_def endsWith_def)

text \<open>
  C9 (amended).  A nested merge (\<^verbatim>\<open>isRoot = false\<close>) always returns a merged
  copy.  A root merge raises exactly when \<^verbatim>\<open>alias\<close> is non-nullish on both
  sides, the two values are neither both arrays nor both plain mappings, and
  \<^verbatim>\<open>mergeAlias\<close> raises on them, with the same error.  In particular it returns
  a merged copy whenever both \<^verbatim>\<open>alias\<close> values are well typed.
\<close>

theorem mergeConfig_total_unless_alias_raises:
  "(\<forall>a b. \<exists>m. mergeConfig a b False = Inr m)
   \<and> (\<forall>a b e. distinct (map fst b) \<longrightarrow>
        (mergeConfig a b True = Inl e \<longleftrightarrow>
          (\<not> is_nullish (js_get a ''alias'') \<and> \<not> is_nullish (js_get b ''alias'') \<and>
           \<not> (isArray (js_get a ''alias'') \<and> isArray (js_get b ''alias'')) \<and>
           \<not> (isObject (js_get a ''alias'') \<and> isObject (js_get b ''alias'')) \<and>
           mergeAlias (js_get a ''alias'') (js_get b ''alias'') = Inl e)))
   \<and> (\<forall>a b. distinct (map fst b) \<and> alias_ok (js_get a ''alias'') \<and> alias_ok (js_get b ''alias'')
        \<longrightarrow> (\<exists>m. mergeConfig a b True = Inr m))"
proof (intro conjI allI impI)
  fix a b
  show "\<exists>m. mergeConfig a b False = Inr m" by (rule mergeConfig_nested_total)
next
  fix a b :: js_record and e
  assume "distinct (map fst b)"
  then show "mergeConfig a b True = Inl e \<longleftrightarrow>
          (\<not> is_nullish (js_get a ''alias'') \<and> \<not> is_nullish (js_get b ''alias'') \<and>
           \<not> (isArray (js_get a ''alias'') \<and> isArray (js_get b ''alias'')) \<and>
           \<not> (isObject (js_get a ''alias'') \<and> isObject (js_get b ''alias'')) \<and>
           mergeAlias (js_get a ''alias'') (js_get b ''alias'') = Inl e)"
    by (rule mergeConfig_Inl_iff)
next
  fix a b :: js_record
  assume "distinct (map fst b) \<and> alias_ok (js_get a ''alias'') \<and> alias_ok (js_get b ''alias'')"
  then show "\<exists>m. mergeConfig a b True = Inr m"
    by (blast intro: mergeConfig_root_total)
qed

text \<open>C9 (amended) at a well-typed pair and at the pair that raises.\<close>

theorem mergeConfig_total_unless_alias_raises_witness:
  "distinct (map fst [(''alias'', Obj [(''/src/'', Str ''/root/'')])])
   \<and> alias_ok (js_get [(''alias'', Arr [Obj [(''find'', Str ''/@/''), (''replacement'', Str ''/x/'')]])] ''alias'')
   \<and> alias_ok (js_get [(''alias'', Obj [(''/src/'', Str ''/root/'')])] ''alias'')
   \<and> (\<exists>m. mergeConfig [(''alias'', Arr [Obj [(''find'', Str ''/@/''), (''replacement'', Str ''/x/'')]])]
                        [(''alias'', Obj [(''/src/'', Str ''/root/'')])] True = Inr m)
   \<and> mergeConfig [(''alias'', Arr [Obj [(''find'', Str ''/@/''), (''replacement'', Fn 0)]])]
                 [(''alias'', Obj [(''/src/'', Str ''/root/'')])] True = Inl TypeError"
proof -
  let ?a = "[(''alias'', Arr [Obj [(''find'', Str ''/@/''), (''replacement'', Str ''/x/'')]])]"
  let ?a' = "[(''alias'', Arr [Obj [(''find'', Str ''/@/''), (''replacement'', Fn 0)]])]"
  let ?b = "[(''alias'', Obj [(''/src/'', Str ''/root/'')])]"
  have d: "distinct (map fst ?b)" by simp
  have oka: "alias_ok (js_get ?a ''alias'')"
    by (simp add: alias_ok_def js_get_def isArray_def)
  have okb: "alias_ok (js_get ?b ''alias'')"
    by (simp add: alias_ok_def js_get_def isArray_def isObject_def)
  have raises: "mergeAlias (js_get ?a' ''alias'') (js_get ?b ''alias'') = Inl TypeError"
    by (simp add: mergeAlias_def normalizeAlias_def normalizeSingleAlias_def
      js_get_def isArray_def endsWith_def)
  from mergeConfig_total_unless_alias_raises[THEN conjunct2, THEN conjunct2, rule_format, of ?b ?a] d oka okb
  have "\<exists>m. mergeConfig ?a ?b True = Inr m" by blast
  moreover
  from mergeConfig_total_unless_alias_raises[THEN conjunct2, THEN conjunct1, rule_format, of ?b ?a' TypeError] d raises
  have "mergeConfig ?a' ?b True = Inl TypeError"
    by (simp add: js_get_def is_nullish_def isArray_def isObject_def)
  ultimately show ?thesis using d oka okb by blast
qed

section \<open>Properties of the SSR Externalization Resolver\<close>

lemma set_add_externals [simp]: "set (ssrExternals (set_add x st)) = insert x (set (ssrExternals st))"
  by (auto simp: set_add_def)

lemma set_add_probes [simp]: "probes (set_add x st) = probes st"
  by (simp add: set_add_def)

lemma note_probe_simps [simp]:
  "ssrExternals (note_probe p st) = ssrExternals st"
  "probes (note_probe p st) = probes st @ [p]"
  by (simp_all add: note_probe_def)

lemma fold_set_add_externals [simp]:
  "set (ssrExternals (fold set_add xs st)) = set xs \<union> set (ssrExternals st)"
  by (induction xs arbitrary: st) auto

lemma fold_set_add_probes [simp]: "probes (fold set_add xs st) = probes st"
  by (induction xs arbitrary: st) auto

lemma finish_result:
  "set (fst (finish config st)) =
     (set (ssrExternals st) \<union> external_ids config) - noExternal_ids config - {''vite''}"
  by (auto simp: finish_def external_ids_def noExternal_ids_def Let_def split: option.splits)

lemma finish_state:
  "set (ssrExternals (snd (finish config st))) = set (ssrExternals st) \<union> external_ids config"
  "probes (snd (finish config st)) = probes st"
  by (auto simp: finish_def external_ids_def Let_def split: option.splits)

lemma resolve_Suc_cases:
  assumes "resolveSSRExternal (Suc n) h config K st = Some (Inr (xs, st'))"
  shows "(xs = [] \<and> st' = st \<and> (lookupFile h (root config) = None \<or> lookupFile h (root config) = Some []))
       \<or> (\<exists>c pkg st2. lookupFile h (root config) = Some c \<and> c \<noteq> [] \<and> JSON_parse h c = Some pkg \<and>
             \<not> is_nullish pkg \<and>
             deps_loop n h config K (K @ dep_names pkg ''dependencies'')
                (fold set_add (dep_names pkg ''devDependencies'') st) = Some (Inr st2) \<and>
             (xs, st') = finish config st2)"
  using assms
  by (auto simp: Let_def split: option.splits if_splits sum.splits)

lemma deps_loop_Cons_cases:
  assumes "deps_loop n h config K (ident # rest) st = Some (Inr st')"
  shows "\<exists>st1. deps_loop n h config K rest st1 = Some (Inr st') \<and>
     (st1 = note_probe (Resolve ident) st
      \<or> st1 = set_add ident (note_probe (Resolve ident) st)
      \<or> st1 = note_probe (Scan ident) (note_probe (Resolve ident) st)
      \<or> st1 = set_add ident (note_probe (Scan ident) (note_probe (Resolve ident) st))
      \<or> (\<exists>r xs. resolveSSRExternal n h (config\<lparr>root := r\<rparr>) K (note_probe (Resolve ident) st)
                    = Some (Inr (xs, st1))))"
  using assms
  apply (simp add: Let_def split: option.splits if_splits sum.splits prod.splits)
  apply blast+
  done

lemma walk_invariant:
  assumes R_refl: "\<And>st. R st st"
    and R_trans: "\<And>a b c. R a b \<Longrightarrow> R b c \<Longrightarrow> R a c"
    and R_add: "\<And>x st. R st (set_add x st)"
    and R_probe: "\<And>p st. probe_id p \<in> D \<Longrightarrow> R st (note_probe p st)"
    and K_D: "set K \<subseteq> D"
    and deps_D: "dependency_names h \<subseteq> D"
  shows "resolveSSRExternal n h config K st = Some (Inr (xs, st')) \<Longrightarrow> R st st'"
    and "set ids \<subseteq> D \<Longrightarrow>
         deps_loop n h config K ids st = Some (Inr st') \<Longrightarrow> R st st'"
proof -
  have R_fold: "R st (fold set_add ys st)" for ys st
  proof (induction ys arbitrary: st)
    case Nil
    show ?case by (simp add: R_refl)
  next
    case (Cons y ys)
    from R_trans[OF R_add Cons.IH] show ?case by simp
  qed
  have R_finish: "R st (snd (finish config st))" for config st
    by (auto simp: finish_def Let_def R_refl R_fold split: option.splits)
  have loop: "R st st'"
    if res: "\<And>config st xs st'. resolveSSRExternal n h config K st = Some (Inr (xs, st')) \<Longrightarrow> R st st'"
      and ids: "set ids \<subseteq> D"
      and run: "deps_loop n h config K ids st = Some (Inr st')"
    for n config ids st st'
    using ids run
  proof (induction ids arbitrary: st)
    case Nil
    then show ?case by (simp add: R_refl)
  next
    case (Cons ident rest)
    from Cons.prems(1) have inD: "probe_id (Resolve ident) \<in> D" "probe_id (Scan ident) \<in> D"
      and rest: "set rest \<subseteq> D" by auto
    from deps_loop_Cons_cases[OF Cons.prems(2)] obtain st1 where
      st1: "deps_loop n h config K rest st1 = Some (Inr st')"
      and alt: "st1 = note_probe (Resolve ident) st
         \<or> st1 = set_add ident (note_probe (Resolve ident) st)
         \<or> st1 = note_probe (Scan ident) (note_probe (Resolve ident) st)
         \<or> st1 = set_add ident (note_probe (Scan ident) (note_probe (Resolve ident) st))
         \<or> (\<exists>r xs. resolveSSRExternal n h (config\<lparr>root := r\<rparr>) K (note_probe (Resolve ident) st)
                    = Some (Inr (xs, st1)))"
      by blast
    have p1: "R st (note_probe (Resolve ident) st)" by (rule R_probe[OF inD(1)])
    have "R st st1"
      using alt
    proof (elim disjE exE)
      assume "st1 = note_probe (Resolve ident) st"
      with p1 show ?thesis by simp
    next
      assume "st1 = set_add ident (note_probe (Resolve ident) st)"
      with R_trans[OF p1 R_add] show ?thesis by simp
    next
      assume "st1 = note_probe (Scan ident) (note_probe (Resolve ident) st)"
      with R_trans[OF p1 R_probe[OF inD(2)]] show ?thesis by simp
    next
      assume "st1 = set_add ident (note_probe (Scan ident) (note_probe (Resolve ident) st))"
      with R_trans[OF R_trans[OF p1 R_probe[OF inD(2)]] R_add] show ?thesis by simp
    next
      fix r xs
      assume "resolveSSRExternal n h (config\<lparr>root := r\<rparr>) K (note_probe (Resolve ident) st)
                    = Some (Inr (xs, st1))"
      from R_trans[OF p1 res[OF this]] show ?thesis .
    qed
    from R_trans[OF this Cons.IH[OF rest st1]] show ?case .
  qed
  have res: "resolveSSRExternal n h config K st = Some (Inr (xs, st')) \<Longrightarrow> R st st'"
    for n config st xs st'
  proof (induction n arbitrary: config st xs st')
    case 0
    then show ?case by simp
  next
    case (Suc n)
    from resolve_Suc_cases[OF Suc.prems] show ?case
    proof (elim disjE exE conjE)
      assume "st' = st"
      then show ?thesis by (simp add: R_refl)
    next
      fix c pkg st2
      assume c: "lookupFile h (root config) = Some c" "JSON_parse h c = Some pkg"
        and run: "deps_loop n h config K (K @ dep_names pkg ''dependencies'')
                (fold set_add (dep_names pkg ''devDependencies'') st) = Some (Inr st2)"
        and fin: "(xs, st') = finish config st2"
      from c have "set (dep_names pkg ''dependencies'') \<subseteq> dependency_names h"
        by (auto simp: dependency_names_def)
      with K_D deps_D have "set (K @ dep_names pkg ''dependencies'') \<subseteq> D"
        by auto
      from loop[OF Suc.IH this run] have "R (fold set_add (dep_names pkg ''devDependencies'') st) st2"
        by simp
      from R_trans[OF R_fold this] have "R st st2" .
      moreover from fin have "st' = snd (finish config st2)" by (metis snd_conv)
      ultimately show ?thesis using R_trans[OF _ R_finish] by simp
    qed (simp_all add: R_refl)
  qed
  show "resolveSSRExternal n h config K st = Some (Inr (xs, st')) \<Longrightarrow> R st st'"
    by (rule res)
  show "set ids \<subseteq> D \<Longrightarrow>
         deps_loop n h config K ids st = Some (Inr st') \<Longrightarrow> R st st'"
    by (rule loop[of n ids config st st']) (erule res, assumption+)
qed

lemma deps_loop_grows:
  assumes "deps_loop n h config K ids st = Some (Inr st')"
  shows "set (ssrExternals st) \<subseteq> set (ssrExternals st')"
  by (rule walk_invariant(2)[where R = "\<lambda>a b. set (ssrExternals a) \<subseteq> set (ssrExternals b)"
        and D = UNIV, OF _ _ _ _ _ _ _ assms])
     auto

lemma resolveSSRExternal_grows:
  assumes "resolveSSRExternal n h config K st = Some (Inr (xs, st'))"
  shows "set (ssrExternals st) \<subseteq> set (ssrExternals st')"
  by (rule walk_invariant(1)[where R = "\<lambda>a b. set (ssrExternals a) \<subseteq> set (ssrExternals b)"
        and D = UNIV, OF _ _ _ _ _ _ assms])
     auto

lemma resolveSSRExternal_probes_from_dependencies:
  assumes "resolveSSRExternal n h config K st = Some (Inr (xs, st'))"
  shows "\<exists>new. probes st' = probes st @ new \<and>
           (\<forall>p. p \<in> set new \<longrightarrow> probe_id p \<in> set K \<union> dependency_names h)"
proof (rule walk_invariant(1)[where
        R = "\<lambda>a b. \<exists>new. probes b = probes a @ new \<and>
                 (\<forall>p. p \<in> set new \<longrightarrow> probe_id p \<in> set K \<union> dependency_names h)"
        and D = "set K \<union> dependency_names h", OF _ _ _ _ _ _ assms])
  fix a b c :: ssr_state
  assume "\<exists>new. probes b = probes a @ new \<and>
                 (\<forall>p. p \<in> set new \<longrightarrow> probe_id p \<in> set K \<union> dependency_names h)"
    and "\<exists>new. probes c = probes b @ new \<and>
                 (\<forall>p. p \<in> set new \<longrightarrow> probe_id p \<in> set K \<union> dependency_names h)"
  then obtain n1 n2 where "probes c = probes a @ (n1 @ n2)"
    "\<forall>p. p \<in> set (n1 @ n2) \<longrightarrow> probe_id p \<in> set K \<union> dependency_names h"
    by auto
  then show "\<exists>new. probes c = probes a @ new \<and>
                 (\<forall>p. p \<in> set new \<longrightarrow> probe_id p \<in> set K \<union> dependency_names h)"
    by blast
qed auto

lemma deps_loop_classify:
  "deps_loop n h config K (ident # rest) st =
    (let st0 = note_probe (Resolve ident) st in
     case classify h (root config) ident of
       Skip \<Rightarrow> deps_loop n h config K rest st0
     | Externalize \<Rightarrow> deps_loop n h config K rest (set_add ident st0)
     | ScanThen b \<Rightarrow>
         deps_loop n h config K rest
           (if b then set_add ident (note_probe (Scan ident) st0) else note_probe (Scan ident) st0)
     | Descend r \<Rightarrow>
         (case resolveSSRExternal n h (config\<lparr>root := r\<rparr>) K st0 of
            None \<Rightarrow> None
          | Some (Inl e) \<Rightarrow> Some (Inl e)
          | Some (Inr (unused, st')) \<Rightarrow> deps_loop n h config K rest st')
     | Raise e \<Rightarrow> Some (Inl e))"
proof (cases "tryNodeResolve h ident (root config)")
  case None
  then show ?thesis by (simp add: classify_def)
next
  case entry: (Some entry)
  show ?thesis
  proof (cases "require_resolve h ident (root config)")
    case None
    with entry show ?thesis by (simp add: classify_def)
  next
    case req: (Some requireEntry)
    show ?thesis
    proof (cases entry)
      case None
      with entry req show ?thesis by (simp add: classify_def)
    next
      case (Some e)
      with entry req show ?thesis
        by (cases "resolveFrom h (ident @ ''/package.json'') (root config)";
            cases "readFileSync h e")
           (auto simp add: classify_def Let_def)
    qed
  qed
qed

lemma loop_trace_independent:
  assumes res: "\<And>config st1 st2. probes st1 = probes st2 \<Longrightarrow>
      pass_trace (resolveSSRExternal n h config K st1) = pass_trace (resolveSSRExternal n h config K st2)"
  shows "probes st1 = probes st2 \<Longrightarrow>
      loop_trace (deps_loop n h config K ids st1) = loop_trace (deps_loop n h config K ids st2)"
proof (induction ids arbitrary: st1 st2)
  case Nil
  then show ?case by (simp add: loop_trace_def)
next
  case (Cons ident rest)
  let ?a1 = "note_probe (Resolve ident) st1" and ?a2 = "note_probe (Resolve ident) st2"
  from Cons.prems have p: "probes ?a1 = probes ?a2" by simp
  show ?case
  proof (cases "classify h (root config) ident")
    case Skip
    with Cons.IH[OF p] show ?thesis by (simp add: deps_loop_classify del: deps_loop.simps)
  next
    case Externalize
    with Cons.IH[of "set_add ident ?a1" "set_add ident ?a2"] p show ?thesis
      by (simp add: deps_loop_classify del: deps_loop.simps)
  next
    case (ScanThen b)
    with Cons.IH[of "set_add ident (note_probe (Scan ident) ?a1)" "set_add ident (note_probe (Scan ident) ?a2)"]
      Cons.IH[of "note_probe (Scan ident) ?a1" "note_probe (Scan ident) ?a2"] p
    show ?thesis
      by (cases b) (simp_all add: deps_loop_classify Let_def del: deps_loop.simps)
  next
    case (Descend r)
    let ?r1 = "resolveSSRExternal n h (config\<lparr>root := r\<rparr>) K ?a1"
    let ?r2 = "resolveSSRExternal n h (config\<lparr>root := r\<rparr>) K ?a2"
    from res[OF p] have eq: "pass_trace ?r1 = pass_trace ?r2" .
    show ?thesis
    proof (cases ?r1)
      case None
      with eq have "?r2 = None" by (simp add: pass_trace_def)
      with None Descend show ?thesis
        by (simp add: deps_loop_classify loop_trace_def del: deps_loop.simps)
    next
      case (Some o1)
      with eq obtain o2 where o2: "?r2 = Some o2" by (cases ?r2) (auto simp: pass_trace_def)
      show ?thesis
      proof (cases o1)
        case (Inl e)
        with Some eq o2 have "o2 = Inl e"
          by (cases o2) (auto simp: pass_trace_def)
        with Inl Some o2 Descend show ?thesis
          by (simp add: deps_loop_classify loop_trace_def del: deps_loop.simps)
      next
        case (Inr res1)
        obtain xs1 s1 where res1: "res1 = (xs1, s1)" by (cases res1)
        from Inr Some eq o2 obtain xs2 s2 where o2': "o2 = Inr (xs2, s2)" and ps: "probes s1 = probes s2"
          by (cases o2) (auto simp: pass_trace_def res1)
        from Cons.IH[OF ps] Inr Some o2 o2' res1 Descend show ?thesis
          by (simp add: deps_loop_classify del: deps_loop.simps)
      qed
    qed
  next
    case (Raise e)
    then show ?thesis by (simp add: deps_loop_classify loop_trace_def del: deps_loop.simps)
  qed
qed

lemma pass_trace_independent:
  "probes st1 = probes st2 \<Longrightarrow>
      pass_trace (resolveSSRExternal n h config K st1) = pass_trace (resolveSSRExternal n h config K st2)"
proof (induction n arbitrary: config st1 st2)
  case 0
  show ?case by simp
next
  case (Suc n)
  have loop: "loop_trace (deps_loop n h config K ids (fold set_add ds st1))
            = loop_trace (deps_loop n h config K ids (fold set_add ds st2))" for ids ds
    by (rule loop_trace_independent[OF Suc.IH]) (simp_all add: Suc.prems)
  show ?case
  proof (cases "lookupFile h (root config)")
    case None
    with Suc.prems show ?thesis by (simp add: pass_trace_def)
  next
    case (Some c)
    show ?thesis
    proof (cases "c = [] \<or> JSON_parse h c = None \<or> is_nullish (the (JSON_parse h c))")
      case True
      with Some Suc.prems show ?thesis
        by (cases "JSON_parse h c") (auto simp: pass_trace_def)
    next
      case False
      then obtain pkg where pkg: "JSON_parse h c = Some pkg" "\<not> is_nullish pkg" "c \<noteq> []" by auto
      let ?l1 = "deps_loop n h config K (K @ dep_names pkg ''dependencies'')
                   (fold set_add (dep_names pkg ''devDependencies'') st1)"
      let ?l2 = "deps_loop n h config K (K @ dep_names pkg ''dependencies'')
                   (fold set_add (dep_names pkg ''devDependencies'') st2)"
      from loop have eq: "loop_trace ?l1 = loop_trace ?l2" .
      have r1: "resolveSSRExternal (Suc n) h config K st1 =
          (case ?l1 of None \<Rightarrow> None | Some (Inl e) \<Rightarrow> Some (Inl e)
           | Some (Inr st2) \<Rightarrow> Some (Inr (finish config st2)))"
        using Some pkg by (simp add: Let_def)
      have r2: "resolveSSRExternal (Suc n) h config K st2 =
          (case ?l2 of None \<Rightarrow> None | Some (Inl e) \<Rightarrow> Some (Inl e)
           | Some (Inr st2) \<Rightarrow> Some (Inr (finish config st2)))"
        using Some pkg by (simp add: Let_def)
      have fin: "probes (snd (finish config s)) = probes s" for s
        by (rule finish_state)
      from eq show ?thesis
        unfolding r1 r2
        by (cases ?l1; cases ?l2)
           (auto simp: loop_trace_def pass_trace_def fin split: sum.splits prod.splits,
            (metis fin snd_conv)+)
    qed
  qed
qed

lemma dep_names_sample:
  "dep_names sample_manifest ''devDependencies'' = [''mocha'']"
  "dep_names sample_manifest ''dependencies'' = [''lodash'']"
  "dep_names foo_manifest ''devDependencies'' = [''foo'']"
  "dep_names foo_manifest ''dependencies'' = [''foo'']"
  "dep_names (Obj []) ''devDependencies'' = []"
  "dep_names (Obj []) ''dependencies'' = []"
  by (simp_all add: dep_names_def sample_manifest_def foo_manifest_def object_keys_def js_get_def)

lemma manifests_not_nullish:
  "\<not> is_nullish sample_manifest" "\<not> is_nullish foo_manifest" "\<not> is_nullish (Obj [])"
  by (simp_all add: is_nullish_def sample_manifest_def foo_manifest_def)

lemma example_unresolvable:
  "resolveSSRExternal 1 (unresolvable_host sample_manifest)
      \<lparr>root = ''/app'', ssr = None\<rparr> [''left-pad''] \<lparr>ssrExternals = [], probes = []\<rparr>
    = Some (Inr ([''mocha''],
         \<lparr>ssrExternals = [''mocha''], probes = [Resolve ''left-pad'', Resolve ''lodash'']\<rparr>))"
  by (simp add: unresolvable_host_def dep_names_sample manifests_not_nullish
      set_add_def note_probe_def finish_def Let_def startsWith_def endsWith_def)

lemma example_vite:
  "resolveSSRExternal 1 (unresolvable_host (Obj []))
      \<lparr>root = ''/app'', ssr = Some \<lparr>external = Some [''vite'', ''react''], noExternal = Some [''mocha'']\<rparr>\<rparr>
      [] \<lparr>ssrExternals = [], probes = []\<rparr>
    = Some (Inr ([''react''], \<lparr>ssrExternals = [''vite'', ''react''], probes = []\<rparr>))"
  by (simp add: unresolvable_host_def dep_names_sample manifests_not_nullish
      set_add_def note_probe_def finish_def Let_def startsWith_def endsWith_def)

lemma example_member_reprocessed:
  "deps_loop 0 (commonjs_host foo_manifest) \<lparr>root = ''/app'', ssr = None\<rparr> [] [''foo'']
      \<lparr>ssrExternals = [''foo''], probes = []\<rparr>
    = Some (Inr \<lparr>ssrExternals = [''foo''], probes = [Resolve ''foo'', Scan ''foo'']\<rparr>)"
  by (simp add: commonjs_host_def set_add_def note_probe_def Let_def startsWith_def endsWith_def)

lemma example_foo:
  "resolveSSRExternal 1 (commonjs_host foo_manifest) \<lparr>root = ''/app'', ssr = None\<rparr> []
      \<lparr>ssrExternals = [], probes = []\<rparr>
    = Some (Inr ([''foo''], \<lparr>ssrExternals = [''foo''], probes = [Resolve ''foo'', Scan ''foo'']\<rparr>))"
  by (simp add: commonjs_host_def dep_names_sample
      manifests_not_nullish set_add_def note_probe_def finish_def
      Let_def startsWith_def endsWith_def)

lemma deps_loop_probes_all:
  "deps_loop n h config K ids st = Some (Inr st') \<Longrightarrow>
     \<exists>new. probes st' = probes st @ new \<and> (\<forall>i. i \<in> set ids \<longrightarrow> Resolve i \<in> set new)"
proof (induction ids arbitrary: st)
  case Nil
  then show ?case by simp
next
  case (Cons ident rest)
  from deps_loop_Cons_cases[OF Cons.prems] obtain st1 where
    st1: "deps_loop n h config K rest st1 = Some (Inr st')"
    and alt: "st1 = note_probe (Resolve ident) st
       \<or> st1 = set_add ident (note_probe (Resolve ident) st)
       \<or> st1 = note_probe (Scan ident) (note_probe (Resolve ident) st)
       \<or> st1 = set_add ident (note_probe (Scan ident) (note_probe (Resolve ident) st))
       \<or> (\<exists>r xs. resolveSSRExternal n h (config\<lparr>root := r\<rparr>) K (note_probe (Resolve ident) st)
                  = Some (Inr (xs, st1)))"
    by blast
  have "\<exists>more. probes st1 = probes st @ Resolve ident # more"
    using alt
  proof (elim disjE exE)
    fix r xs
    assume "resolveSSRExternal n h (config\<lparr>root := r\<rparr>) K (note_probe (Resolve ident) st)
                  = Some (Inr (xs, st1))"
    from resolveSSRExternal_probes_from_dependencies[OF this]
    show ?thesis by auto
  qed simp_all
  then obtain more where more: "probes st1 = probes st @ Resolve ident # more" ..
  from Cons.IH[OF st1] obtain new where
    new: "probes st' = probes st1 @ new" "\<forall>i. i \<in> set rest \<longrightarrow> Resolve i \<in> set new" by blast
  from more new have "probes st' = probes st @ (Resolve ident # more @ new)"
    "\<forall>i. i \<in> set (ident # rest) \<longrightarrow> Resolve i \<in> set (Resolve ident # more @ new)"
    by auto
  then show ?case by blast
qed

lemma loop_trace_independent_all:
  "probes st1 = probes st2 \<Longrightarrow>
      loop_trace (deps_loop n h config K ids st1) = loop_trace (deps_loop n h config K ids st2)"
  by (rule loop_trace_independent) (erule pass_trace_independent, assumption)

text \<open>
  C1 as it is worded fails: with \<^verbatim>\<open>'vite'\<close> listed in \<^verbatim>\<open>ssr.external\<close> and not in
  \<^verbatim>\<open>ssr.noExternal\<close>, and the manifest found, the returned list does not
  contain \<^verbatim>\<open>'vite'\<close>, although it is an id of \<^verbatim>\<open>ssr.external\<close> that is not
  listed in \<^verbatim>\<open>ssr.noExternal\<close>.
\<close>

theorem resolveSSRExternal_external_vite_counterexample:
  "resolveSSRExternal 1 (unresolvable_host (Obj []))
      \<lparr>root = ''/app'', ssr = Some \<lparr>external = Some [''vite'', ''react''], noExternal = Some [''mocha'']\<rparr>\<rparr>
      [] \<lparr>ssrExternals = [], probes = []\<rparr>
    = Some (Inr ([''react''], \<lparr>ssrExternals = [''vite'', ''react''], probes = []\<rparr>))
   \<and> lookupFile (unresolvable_host (Obj [])) ''/app'' = Some ''package.json''
   \<and> ''vite'' \<in> external_ids
         \<lparr>root = ''/app'', ssr = Some \<lparr>external = Some [''vite'', ''react''], noExternal = Some [''mocha'']\<rparr>\<rparr>
   \<and> ''vite'' \<notin> noExternal_ids
         \<lparr>root = ''/app'', ssr = Some \<lparr>external = Some [''vite'', ''react''], noExternal = Some [''mocha'']\<rparr>\<rparr>
   \<and> ''vite'' \<notin> set [''react'']"
proof -
  have "lookupFile (unresolvable_host (Obj [])) ''/app'' = Some ''package.json''"
    by (simp add: unresolvable_host_def)
  with example_vite show ?thesis
    by (simp add: external_ids_def noExternal_ids_def)
qed

text \<open>
  C1 (amended).  Whatever the host, the config, the known imports and the
  initial set: a list returned by \<^verbatim>\<open>resolveSSRExternal\<close> never contains
  \<^verbatim>\<open>'vite'\<close>, never contains an id listed in \<^verbatim>\<open>ssr.noExternal\<close>, and, when the
  root's manifest is found (\<^verbatim>\<open>pkgContent\<close> is truthy), contains every id listed
  in \<^verbatim>\<open>ssr.external\<close> that is neither listed in \<^verbatim>\<open>ssr.noExternal\<close> nor \<^verbatim>\<open>'vite'\<close>.
\<close>

theorem resolveSSRExternal_result:
  "\<forall>n h config K st xs st'.
     resolveSSRExternal n h config K st = Some (Inr (xs, st')) \<longrightarrow>
       ''vite'' \<notin> set xs
       \<and> (\<forall>x. x \<in> noExternal_ids config \<longrightarrow> x \<notin> set xs)
       \<and> (\<forall>c. lookupFile h (root config) = Some c \<and> c \<noteq> [] \<longrightarrow>
            (\<forall>x. x \<in> external_ids config \<and> x \<notin> noExternal_ids config \<and> x \<noteq> ''vite''
                 \<longrightarrow> x \<in> set xs))"
proof (intro allI impI)
  fix n h config K st xs st'
  assume run: "resolveSSRExternal n h config K st = Some (Inr (xs, st'))"
  then obtain m where n: "n = Suc m" by (cases n) auto
  from resolve_Suc_cases[OF run[unfolded n]]
  show "''vite'' \<notin> set xs
       \<and> (\<forall>x. x \<in> noExternal_ids config \<longrightarrow> x \<notin> set xs)
       \<and> (\<forall>c. lookupFile h (root config) = Some c \<and> c \<noteq> [] \<longrightarrow>
            (\<forall>x. x \<in> external_ids config \<and> x \<notin> noExternal_ids config \<and> x \<noteq> ''vite''
                 \<longrightarrow> x \<in> set xs))"
  proof (elim disjE exE conjE)
    fix c pkg st2
    assume "(xs, st') = finish config st2"
    then have "set xs = (set (ssrExternals st2) \<union> external_ids config) - noExternal_ids config - {''vite''}"
      by (metis finish_result fst_conv)
    then show ?thesis by auto
  qed auto
qed

text \<open>
  C1 (amended) on a run that returns: \<^verbatim>\<open>external = [vite, react]\<close>,
  \<^verbatim>\<open>noExternal = [mocha]\<close>, result \<^verbatim>\<open>[react]\<close>.
\<close>

theorem resolveSSRExternal_result_witness:
  "resolveSSRExternal 1 (unresolvable_host (Obj []))
      \<lparr>root = ''/app'', ssr = Some \<lparr>external = Some [''vite'', ''react''], noExternal = Some [''mocha'']\<rparr>\<rparr>
      [] \<lparr>ssrExternals = [], probes = []\<rparr>
    = Some (Inr ([''react''], \<lparr>ssrExternals = [''vite'', ''react''], probes = []\<rparr>))
   \<and> lookupFile (unresolvable_host (Obj [])) ''/app'' = Some ''package.json''
   \<and> ''react'' \<in> external_ids
         \<lparr>root = ''/app'', ssr = Some \<lparr>external = Some [''vite'', ''react''], noExternal = Some [''mocha'']\<rparr>\<rparr>
   \<and> ''mocha'' \<in> noExternal_ids
         \<lparr>root = ''/app'', ssr = Some \<lparr>external = Some [''vite'', ''react''], noExternal = Some [''mocha'']\<rparr>\<rparr>
   \<and> ''vite'' \<notin> set [''react''] \<and> ''mocha'' \<notin> set [''react''] \<and> ''react'' \<in> set [''react'']"
proof -
  let ?cfg = "\<lparr>root = ''/app'', ssr = Some \<lparr>external = Some [''vite'', ''react''], noExternal = Some [''mocha'']\<rparr>\<rparr>"
  let ?h = "unresolvable_host (Obj [])"
  note run = example_vite
  have found: "lookupFile ?h (root ?cfg) = Some ''package.json'' \<and> ''package.json'' \<noteq> []"
    by (simp add: unresolvable_host_def)
  have ext: "''react'' \<in> external_ids ?cfg \<and> ''react'' \<notin> noExternal_ids ?cfg \<and> ''react'' \<noteq> ''vite''"
    by (simp add: external_ids_def noExternal_ids_def)
  have ne: "''mocha'' \<in> noExternal_ids ?cfg" by (simp add: noExternal_ids_def)
  note facts = resolveSSRExternal_result[rule_format, OF run]
  from facts[THEN conjunct1] have "''vite'' \<notin> set [''react'']" .
  moreover from facts[THEN conjunct2, THEN conjunct1, rule_format, OF ne]
  have "''mocha'' \<notin> set [''react'']" .
  moreover from facts[THEN conjunct2, THEN conjunct2, rule_format, OF found ext]
  have "''react'' \<in> set [''react'']" .
  ultimately show ?thesis using run found ext ne by simp
qed







text \<open>
  The walk descends into a linked package with one more level of fuel, and a
  package that is linked to itself keeps the walk from ever returning: no
  amount of fuel yields a result.
\<close>

lemma example_linked:
  "resolveSSRExternal 2 linked_host \<lparr>root = ''/app'', ssr = None\<rparr> [] \<lparr>ssrExternals = [], probes = []\<rparr>
    = Some (Inr ([''dep''],
        \<lparr>ssrExternals = [''dep''], probes = [Resolve ''lib'', Resolve ''dep'', Scan ''dep'']\<rparr>))"
  by (simp add: numeral_2_eq_2 linked_host_def dep_names_def object_keys_def js_get_def is_nullish_def
      set_add_def note_probe_def finish_def Let_def startsWith_def endsWith_def)

lemma example_linked_fuel:
  "resolveSSRExternal 1 linked_host \<lparr>root = ''/app'', ssr = None\<rparr> [] \<lparr>ssrExternals = [], probes = []\<rparr>
    = None"
  by (simp add: linked_host_def dep_names_def object_keys_def js_get_def is_nullish_def
      set_add_def note_probe_def finish_def Let_def startsWith_def endsWith_def)

lemma cyclic_classify: "classify cyclic_host r ''self'' = Descend ''/ws/self''"
  by (simp add: classify_def cyclic_host_def startsWith_def)

lemma cyclic_link_never_returns:
  "resolveSSRExternal n cyclic_host config [] st = None"
proof (induction n arbitrary: config st)
  case 0
  show ?case by simp
next
  case (Suc n)
  have deps: "dep_names (Obj [(''dependencies'', Obj [(''self'', Str ''*'')])]) ''dependencies'' = [''self'']"
    by (simp add: dep_names_def object_keys_def js_get_def)
  have "deps_loop n cyclic_host config [] [''self''] st' = None" for st'
    by (simp only: deps_loop_classify cyclic_classify Let_def verdict.case Suc.IH option.case)
  then show ?case
    by (simp add: cyclic_host_def deps is_nullish_def del: deps_loop.simps)
qed

text \<open>
  C8 as it is worded fails: the loop has no test of membership in the set.
  An id that is already a member when the loop reaches it (here \<^verbatim>\<open>foo\<close>, put
  there by the \<^verbatim>\<open>devDependencies\<close> seeding and listed again under
  \<^verbatim>\<open>dependencies\<close>) is resolved and its entry scanned all the same.
\<close>

theorem ssr_walk_reprocesses_member_counterexample:
  "''foo'' \<in> set (ssrExternals \<lparr>ssrExternals = [''foo''], probes = []\<rparr>)
   \<and> deps_loop 0 (commonjs_host foo_manifest) \<lparr>root = ''/app'', ssr = None\<rparr> [] [''foo'']
        \<lparr>ssrExternals = [''foo''], probes = []\<rparr>
      = Some (Inr \<lparr>ssrExternals = [''foo''], probes = [Resolve ''foo'', Scan ''foo'']\<rparr>)
   \<and> resolveSSRExternal 1 (commonjs_host foo_manifest) \<lparr>root = ''/app'', ssr = None\<rparr> []
        \<lparr>ssrExternals = [], probes = []\<rparr>
      = Some (Inr ([''foo''], \<lparr>ssrExternals = [''foo''], probes = [Resolve ''foo'', Scan ''foo'']\<rparr>))"
  using example_member_reprocessed example_foo by simp

text \<open>
  C8 (amended).  Membership in the shared set skips nothing.  In a loop that
  runs to its end the two resolutions are attempted on every candidate id,
  member of the set or not; the steps a loop or a pass applies, and the error
  it may end in, are the same whatever the set holds at the start; and the set
  only grows, through the loop and through a whole pass, so reprocessing a
  member never removes it.
\<close>

theorem ssr_walk_processes_every_candidate:
  "(\<forall>n h config K ids st st'.
      deps_loop n h config K ids st = Some (Inr st') \<longrightarrow>
        (\<exists>new. probes st' = probes st @ new \<and> (\<forall>i. i \<in> set ids \<longrightarrow> Resolve i \<in> set new))
        \<and> set (ssrExternals st) \<subseteq> set (ssrExternals st'))
   \<and> (\<forall>n h config K ids st1 st2.
        probes st1 = probes st2 \<longrightarrow>
          loop_trace (deps_loop n h config K ids st1) = loop_trace (deps_loop n h config K ids st2))
   \<and> (\<forall>n h config K st1 st2.
        probes st1 = probes st2 \<longrightarrow>
          pass_trace (resolveSSRExternal n h config K st1) = pass_trace (resolveSSRExternal n h config K st2))
   \<and> (\<forall>n h config K st xs st'.
        resolveSSRExternal n h config K st = Some (Inr (xs, st')) \<longrightarrow>
          set (ssrExternals st) \<subseteq> set (ssrExternals st'))"
proof (intro conjI allI impI)
  fix n h config K ids st st'
  assume run: "deps_loop n h config K ids st = Some (Inr st')"
  then show "\<exists>new. probes st' = probes st @ new \<and> (\<forall>i. i \<in> set ids \<longrightarrow> Resolve i \<in> set new)"
    by (rule deps_loop_probes_all)
  from run show "set (ssrExternals st) \<subseteq> set (ssrExternals st')"
    by (rule deps_loop_grows)
next
  fix n h config K ids and st1 st2 :: ssr_state
  assume "probes st1 = probes st2"
  then show "loop_trace (deps_loop n h config K ids st1) = loop_trace (deps_loop n h config K ids st2)"
    by (rule loop_trace_independent_all)
next
  fix n h config K and st1 st2 :: ssr_state
  assume "probes st1 = probes st2"
  then show "pass_trace (resolveSSRExternal n h config K st1) = pass_trace (resolveSSRExternal n h config K st2)"
    by (rule pass_trace_independent)
next
  fix n h config K st xs st'
  assume "resolveSSRExternal n h config K st = Some (Inr (xs, st'))"
  then show "set (ssrExternals st) \<subseteq> set (ssrExternals st')"
    by (rule resolveSSRExternal_grows)
qed

text \<open>
  C8 (amended) on the run of the counterexample, started once with \<^verbatim>\<open>foo\<close>
  in the set and once with the empty set.
\<close>

theorem ssr_walk_processes_every_candidate_witness:
  "deps_loop 0 (commonjs_host foo_manifest) \<lparr>root = ''/app'', ssr = None\<rparr> [] [''foo'']
        \<lparr>ssrExternals = [''foo''], probes = []\<rparr>
      = Some (Inr \<lparr>ssrExternals = [''foo''], probes = [Resolve ''foo'', Scan ''foo'']\<rparr>)
   \<and> (\<exists>new. [Resolve ''foo'', Scan ''foo''] = [] @ new \<and> Resolve ''foo'' \<in> set new)
   \<and> set [''foo''] \<subseteq> set [''foo'']
   \<and> loop_trace (deps_loop 0 (commonjs_host foo_manifest) \<lparr>root = ''/app'', ssr = None\<rparr> [] [''foo'']
        \<lparr>ssrExternals = [], probes = []\<rparr>)
      = Some (Inr [Resolve ''foo'', Scan ''foo''])
   \<and> pass_trace (resolveSSRExternal 1 (commonjs_host foo_manifest) \<lparr>root = ''/app'', ssr = None\<rparr> []
        \<lparr>ssrExternals = [''foo''], probes = []\<rparr>)
      = Some (Inr [Resolve ''foo'', Scan ''foo''])"
proof -
  let ?h = "commonjs_host foo_manifest"
  let ?cfg = "\<lparr>root = ''/app'', ssr = None\<rparr>"
  let ?s1 = "\<lparr>ssrExternals = [''foo''], probes = []\<rparr>"
  let ?s0 = "\<lparr>ssrExternals = [], probes = []\<rparr>"
  note run = example_member_reprocessed
  have p: "probes ?s0 = probes ?s1" by simp
  from ssr_walk_processes_every_candidate[THEN conjunct1, rule_format, OF run]
  have a: "(\<exists>new. [Resolve ''foo'', Scan ''foo''] = [] @ new \<and> Resolve ''foo'' \<in> set new)
       \<and> set [''foo''] \<subseteq> set [''foo'']"
    by simp
  from ssr_walk_processes_every_candidate[THEN conjunct2, THEN conjunct1, rule_format, OF p, of 0 ?h ?cfg "[]" "[''foo'']"]
  have b: "loop_trace (deps_loop 0 ?h ?cfg [] [''foo''] ?s0) = Some (Inr [Resolve ''foo'', Scan ''foo''])"
    by (simp only: run) (simp add: loop_trace_def)
  from ssr_walk_processes_every_candidate[THEN conjunct2, THEN conjunct2, THEN conjunct1, rule_format, OF p, of 1 ?h ?cfg "[]"]
  have c: "pass_trace (resolveSSRExternal 1 ?h ?cfg [] ?s1) = Some (Inr [Resolve ''foo'', Scan ''foo''])"
    by (simp only: example_foo) (simp add: pass_trace_def)
  from a b c run show ?thesis by blast
qed

section \<open>Properties of the Plugin Lifecycle Pipeline\<close>

lemma sort_forEach_filter:
  "sort_forEach ps (a, b, c) =
     (a @ filter (\<lambda>p. enforce p = Some Pre) ps,
      b @ filter (\<lambda>p. enforce p = Some Post) ps,
      c @ filter (\<lambda>p. enforce p \<noteq> Some Pre \<and> enforce p \<noteq> Some Post) ps)"
  by (induction ps arbitrary: a b c) auto

lemma flat_map_Single: "flat (map Single ps) = ps"
  by (induction ps) auto

lemma userPlugins_eq:
  "userPlugins cmd plugins =
     filter (\<lambda>p. enforce p = Some Pre) (rawUserPlugins cmd plugins)
     @ filter (\<lambda>p. enforce p \<noteq> Some Pre \<and> enforce p \<noteq> Some Post) (rawUserPlugins cmd plugins)
     @ filter (\<lambda>p. enforce p = Some Post) (rawUserPlugins cmd plugins)"
  by (simp add: userPlugins_def sortUserPlugins_def sort_forEach_filter flat_map_Single)

lemma spec_config_step_simps:
  "spec_config_step env (calls, Inl e) p = (calls, Inl e)"
  "spec_config_step env (calls, Inr acc) p =
     (case config_hook p of
        None \<Rightarrow> (calls, Inr acc)
      | Some hook \<Rightarrow>
          (calls @ [(p, acc)],
           case hook acc env of
             Throws \<Rightarrow> Inl HookThrew
           | Returns partial \<Rightarrow>
               if truthy partial
               then (case mergeConfig acc (as_record partial) True of
                       Inl e \<Rightarrow> Inl (MergeRaised e)
                     | Inr merged \<Rightarrow> Inr merged)
               else Inr acc))"
  by (simp_all add: spec_config_step_def)

lemma spec_config_step_aborted:
  "foldl (spec_config_step env) (calls, Inl e) ps = (calls, Inl e)"
  by (induction ps) (simp_all add: spec_config_step_simps)

lemma run_config_hooks_foldl:
  "run_config_hooks ps env config invoked = foldl (spec_config_step env) (invoked, Inr config) ps"
proof (induction ps arbitrary: config invoked)
  case Nil
  show ?case by simp
next
  case (Cons p ps)
  show ?case
  proof (cases "config_hook p")
    case None
    with Cons.IH show ?thesis by (simp add: spec_config_step_simps)
  next
    case (Some hook)
    show ?thesis
    proof (cases "hook config env")
      case Throws
      with Some show ?thesis by (simp add: spec_config_step_simps spec_config_step_aborted)
    next
      case (Returns res)
      show ?thesis
      proof (cases "truthy res")
        case False
        with Returns Some Cons.IH show ?thesis by (simp add: spec_config_step_simps)
      next
        case True
        with Returns Some Cons.IH show ?thesis
          by (cases "mergeConfig config (as_record res) True")
             (simp_all add: spec_config_step_simps spec_config_step_aborted)
      qed
    qed
  qed
qed

lemma spec_notify_step_simps:
  "spec_notify_step resolved (calls, Inl e) p = (calls, Inl e)"
  "spec_notify_step resolved (calls, Inr u) p =
     (case configResolved_hook p of
        None \<Rightarrow> (calls, Inr ())
      | Some hook \<Rightarrow>
          (calls @ [(p, resolved)],
           case hook resolved of Throws \<Rightarrow> Inl HookThrew | Returns r \<Rightarrow> Inr ()))"
  by (simp_all add: spec_notify_step_def)

lemma spec_notify_step_aborted:
  "foldl (spec_notify_step resolved) (calls, Inl e) ps = (calls, Inl e)"
  by (induction ps) (simp_all add: spec_notify_step_simps)

lemma run_configResolved_hooks_foldl:
  "run_configResolved_hooks ps resolved invoked = foldl (spec_notify_step resolved) (invoked, Inr ()) ps"
proof (induction ps arbitrary: invoked)
  case Nil
  show ?case by simp
next
  case (Cons p ps)
  show ?case
  proof (cases "configResolved_hook p")
    case None
    with Cons.IH show ?thesis by (simp add: spec_notify_step_simps)
  next
    case (Some hook)
    with Cons.IH show ?thesis
      by (cases "hook resolved") (simp_all add: spec_notify_step_simps spec_notify_step_aborted)
  qed
qed

lemma run_config_hooks_append:
  "run_config_hooks (ps @ qs) env config invoked =
     (case run_config_hooks ps env config invoked of
        (calls, Inl e) \<Rightarrow> (calls, Inl e)
      | (calls, Inr acc) \<Rightarrow> run_config_hooks qs env acc calls)"
proof -
  obtain calls r where r: "foldl (spec_config_step env) (invoked, Inr config) ps = (calls, r)"
    by (cases "foldl (spec_config_step env) (invoked, Inr config) ps")
  then show ?thesis
    by (cases r) (simp_all add: run_config_hooks_foldl spec_config_step_aborted)
qed

lemma run_config_hooks_calls:
  "run_config_hooks ps env config invoked = (calls, r) \<Longrightarrow>
     (\<exists>ran. calls = invoked @ ran \<and> prefix (map fst ran) (filter (\<lambda>p. config_hook p \<noteq> None) ps)
        \<and> ((\<exists>c. r = Inr c) \<longrightarrow> map fst ran = filter (\<lambda>p. config_hook p \<noteq> None) ps))"
proof (induction ps arbitrary: config invoked)
  case Nil
  then show ?case by auto
next
  case (Cons p ps)
  show ?case
  proof (cases "config_hook p")
    case None
    with Cons show ?thesis by simp
  next
    case (Some hook)
    show ?thesis
    proof (cases "hook config env")
      case Throws
      with Some Cons.prems show ?thesis by auto
    next
      case (Returns res)
      show ?thesis
      proof (cases "truthy res")
        case False
        with Returns Some Cons.prems
        have "run_config_hooks ps env config (invoked @ [(p, config)]) = (calls, r)" by simp
        from Cons.IH[OF this] Some show ?thesis by auto
      next
        case True
        show ?thesis
        proof (cases "mergeConfig config (as_record res) True")
          case (Inl e)
          with True Returns Some Cons.prems show ?thesis by auto
        next
          case (Inr merged)
          with True Returns Some Cons.prems
          have "run_config_hooks ps env merged (invoked @ [(p, config)]) = (calls, r)" by simp
          from Cons.IH[OF this] Some show ?thesis by auto
        qed
      qed
    qed
  qed
qed

lemma run_config_hooks_first:
  assumes "config_hook p = Some hook" "run_config_hooks (p # ps) env config invoked = (calls, r)"
  shows "\<exists>ran. calls = invoked @ (p, config) # ran"
proof -
  have tail: "\<exists>ran. calls = invoked @ (p, config) # ran"
    if "run_config_hooks ps env c' (invoked @ [(p, config)]) = (calls, r)" for c'
    using run_config_hooks_calls[OF that] by auto
  show ?thesis
  proof (cases "hook config env")
    case Throws
    with assms show ?thesis by auto
  next
    case (Returns res)
    show ?thesis
    proof (cases "truthy res")
      case False
      with Returns assms tail[of config] show ?thesis by simp
    next
      case True
      show ?thesis
      proof (cases "mergeConfig config (as_record res) True")
        case (Inl e)
        with True Returns assms show ?thesis by auto
      next
        case (Inr merged)
        with True Returns assms tail[of merged] show ?thesis by simp
      qed
    qed
  qed
qed

lemma run_configResolved_hooks_calls:
  "run_configResolved_hooks ps resolved invoked = (calls, r) \<Longrightarrow>
     (\<exists>ran. calls = invoked @ ran \<and> prefix (map fst ran) (filter (\<lambda>p. configResolved_hook p \<noteq> None) ps)
        \<and> (r = Inr () \<longrightarrow> map fst ran = filter (\<lambda>p. configResolved_hook p \<noteq> None) ps))"
proof (induction ps arbitrary: invoked)
  case Nil
  then show ?case by auto
next
  case (Cons p ps)
  show ?case
  proof (cases "configResolved_hook p")
    case None
    with Cons show ?thesis by simp
  next
    case (Some hook)
    show ?thesis
    proof (cases "hook resolved")
      case Throws
      with Some Cons.prems show ?thesis by auto
    next
      case (Returns res)
      with Some Cons.prems
      have "run_configResolved_hooks ps resolved (invoked @ [(p, resolved)]) = (calls, r)" by simp
      from Cons.IH[OF this] Some show ?thesis by auto
    qed
  qed
qed

lemma run_configResolved_hooks_outcome:
  "run_configResolved_hooks ps resolved invoked = (calls, r) \<Longrightarrow> r = Inr () \<or> r = Inl HookThrew"
proof (induction ps arbitrary: invoked)
  case Nil
  then show ?case by auto
next
  case (Cons p ps)
  show ?case
  proof (cases "configResolved_hook p")
    case None
    with Cons show ?thesis by simp
  next
    case (Some hook)
    with Cons show ?thesis by (cases "hook resolved") auto
  qed
qed

lemma ordering_example:
  "map name (userPlugins Serve (Some [Single (mk_plugin ''A'' None), Single (mk_plugin ''B'' (Some Pre)),
       Single (mk_plugin ''C'' (Some Post)), Single (mk_plugin ''D'' (Some Pre))]))
   = [''B'', ''D'', ''A'', ''C'']"
  by (simp add: userPlugins_eq rawUserPlugins_def mk_plugin_def)

lemma pipeline_facts:
  fixes resolve_rest config plugins cmd mode
  defines "run \<equiv> resolveConfig_plugins resolve_rest config plugins cmd mode"
    and "ups \<equiv> userPlugins cmd plugins"
  shows "plugin_order run = ups"
    and "(config_calls run, config_result run) = run_config_hooks ups (cmd, mode) config []"
    and "(case config_result run of
            Inl e \<Rightarrow> configResolved_calls run = [] \<and> \<not> completed run
          | Inr config' \<Rightarrow>
              (case resolve_rest config' of
                 None \<Rightarrow> configResolved_calls run = [] \<and> \<not> completed run
               | Some resolved \<Rightarrow>
                   (configResolved_calls run, if completed run then Inr () else Inl HookThrew)
                     = run_configResolved_hooks ups resolved []))"
proof -
  obtain calls r where c: "run_config_hooks ups (cmd, mode) config [] = (calls, r)"
    by (cases "run_config_hooks ups (cmd, mode) config []")
  have all: "plugin_order run = ups
    \<and> (config_calls run, config_result run) = run_config_hooks ups (cmd, mode) config []
    \<and> (case config_result run of
            Inl e \<Rightarrow> configResolved_calls run = [] \<and> \<not> completed run
          | Inr config' \<Rightarrow>
              (case resolve_rest config' of
                 None \<Rightarrow> configResolved_calls run = [] \<and> \<not> completed run
               | Some resolved \<Rightarrow>
                   (configResolved_calls run, if completed run then Inr () else Inl HookThrew)
                     = run_configResolved_hooks ups resolved []))"
  proof (cases r)
    case (Inl e)
    with c show ?thesis by (simp add: run_def ups_def resolveConfig_plugins_def Let_def)
  next
    case (Inr config')
    show ?thesis
    proof (cases "resolve_rest config'")
      case None
      with Inr c show ?thesis by (simp add: run_def ups_def resolveConfig_plugins_def Let_def)
    next
      case (Some resolved)
      obtain calls' r' where c': "run_configResolved_hooks ups resolved [] = (calls', r')"
        by (cases "run_configResolved_hooks ups resolved []")
      from run_configResolved_hooks_outcome[OF c'] have "r' = Inr () \<or> r' = Inl HookThrew" .
      with Some Inr c c' show ?thesis
        by (auto simp add: run_def ups_def resolveConfig_plugins_def Let_def)
    qed
  qed
  from all show "plugin_order run = ups" by blast
  from all show "(config_calls run, config_result run) = run_config_hooks ups (cmd, mode) config []"
    by blast
  from all show "(case config_result run of
            Inl e \<Rightarrow> configResolved_calls run = [] \<and> \<not> completed run
          | Inr config' \<Rightarrow>
              (case resolve_rest config' of
                 None \<Rightarrow> configResolved_calls run = [] \<and> \<not> completed run
               | Some resolved \<Rightarrow>
                   (configResolved_calls run, if completed run then Inr () else Inl HookThrew)
                     = run_configResolved_hooks ups resolved []))"
    by blast
qed

lemma abort_example:
  "map (\<lambda>(p, c). (name p, c))
      (config_calls (resolveConfig_plugins Some []
         (Some [Single (guard_plugin ''A'' None ''x''),
                Single (returning_plugin ''B'' (Some Pre) [(''x'', Num 1)]),
                Single (hooked_plugin ''C'' (Some Post) None)])
         Serve ''development''))
     = [(''B'', []), (''A'', [(''x'', Num 1)])]
   \<and> config_result (resolveConfig_plugins Some []
         (Some [Single (guard_plugin ''A'' None ''x''),
                Single (returning_plugin ''B'' (Some Pre) [(''x'', Num 1)]),
                Single (hooked_plugin ''C'' (Some Post) None)])
         Serve ''development'') = Inl HookThrew
   \<and> configResolved_calls (resolveConfig_plugins Some []
         (Some [Single (guard_plugin ''A'' None ''x''),
                Single (returning_plugin ''B'' (Some Pre) [(''x'', Num 1)]),
                Single (hooked_plugin ''C'' (Some Post) None)])
         Serve ''development'') = []
   \<and> \<not> completed (resolveConfig_plugins Some []
         (Some [Single (guard_plugin ''A'' None ''x''),
                Single (returning_plugin ''B'' (Some Pre) [(''x'', Num 1)]),
                Single (hooked_plugin ''C'' (Some Post) None)])
         Serve ''development'')"
proof -
  let ?plugins = "Some [Single (guard_plugin ''A'' None ''x''),
                Single (returning_plugin ''B'' (Some Pre) [(''x'', Num 1)]),
                Single (hooked_plugin ''C'' (Some Post) None)]"
  have ups: "userPlugins Serve ?plugins =
      [returning_plugin ''B'' (Some Pre) [(''x'', Num 1)], guard_plugin ''A'' None ''x'',
       hooked_plugin ''C'' (Some Post) None]"
    by (simp add: userPlugins_eq rawUserPlugins_def hooked_plugin_def returning_plugin_def
        guard_plugin_def)
  have merge: "mergeConfig [] (as_record (Obj [(''x'', Num 1)])) True = Inr [(''x'', Num 1)]"
    by (simp add: mergeConfig.simps as_record_def js_get_def is_nullish_def isArray_def isObject_def)
  have run: "run_config_hooks (userPlugins Serve ?plugins) (Serve, ''development'') [] [] =
      ([(returning_plugin ''B'' (Some Pre) [(''x'', Num 1)], []),
        (guard_plugin ''A'' None ''x'', [(''x'', Num 1)])], Inl HookThrew)"
    unfolding ups
    by (simp add: returning_plugin_def guard_plugin_def merge js_get_def)
  show ?thesis
    by (simp add: resolveConfig_plugins_def run Let_def)
       (simp add: returning_plugin_def guard_plugin_def)
qed

text \<open>
  C6.  Config resolution drops exactly the plugins whose \<^verbatim>\<open>apply\<close> is set and
  differs from the command; the plugins that remain are ordered as the ones
  tagged \<^verbatim>\<open>pre\<close>, then the untagged ones, then the ones tagged \<^verbatim>\<open>post\<close>, each
  group in registration order.  Along that one order the \<^verbatim>\<open>config\<close> hooks are
  invoked as the specification words it, each with the config accumulated
  from the results of the hooks before it, the first hook that throws
  aborting the resolution with no later hook and no \<^verbatim>\<open>configResolved\<close> hook
  invoked; and the \<^verbatim>\<open>configResolved\<close> hooks are invoked along the same order
  with the resolved config.  In particular the hook of a plugin is handed the
  config that the plugins before it in the order leave behind.  Registering
  A (normal), B (pre), C (post), D (pre) yields B, D, A, C; and with A's hook
  throwing on the key that B's hook contributes, the invocations are B, then
  A with B's key merged in, and nothing else.
\<close>

theorem plugin_pipeline_order:
  "(\<forall>cmd plugins.
      rawUserPlugins cmd plugins =
        filter (\<lambda>p. \<not> (apply_field p \<noteq> None \<and> apply_field p \<noteq> Some cmd))
          (flat (case plugins of None \<Rightarrow> [] | Some ps \<Rightarrow> ps)))
   \<and> (\<forall>cmd plugins.
      userPlugins cmd plugins =
        filter (\<lambda>p. enforce p = Some Pre) (rawUserPlugins cmd plugins)
        @ filter (\<lambda>p. enforce p \<noteq> Some Pre \<and> enforce p \<noteq> Some Post) (rawUserPlugins cmd plugins)
        @ filter (\<lambda>p. enforce p = Some Post) (rawUserPlugins cmd plugins))
   \<and> (\<forall>resolve_rest config plugins cmd mode.
      plugin_order (resolveConfig_plugins resolve_rest config plugins cmd mode) = userPlugins cmd plugins
      \<and> (config_calls (resolveConfig_plugins resolve_rest config plugins cmd mode),
          config_result (resolveConfig_plugins resolve_rest config plugins cmd mode))
           = spec_config_phase (userPlugins cmd plugins) (cmd, mode) config
      \<and> (case config_result (resolveConfig_plugins resolve_rest config plugins cmd mode) of
            Inl e \<Rightarrow>
              configResolved_calls (resolveConfig_plugins resolve_rest config plugins cmd mode) = []
              \<and> \<not> completed (resolveConfig_plugins resolve_rest config plugins cmd mode)
          | Inr config' \<Rightarrow>
              (case resolve_rest config' of
                 None \<Rightarrow>
                   configResolved_calls (resolveConfig_plugins resolve_rest config plugins cmd mode) = []
                   \<and> \<not> completed (resolveConfig_plugins resolve_rest config plugins cmd mode)
               | Some resolved \<Rightarrow>
                   (configResolved_calls (resolveConfig_plugins resolve_rest config plugins cmd mode),
                    if completed (resolveConfig_plugins resolve_rest config plugins cmd mode)
                    then Inr () else Inl HookThrew)
                     = spec_notify_phase (userPlugins cmd plugins) resolved))
      \<and> prefix (map fst (config_calls (resolveConfig_plugins resolve_rest config plugins cmd mode)))
           (filter (\<lambda>p. config_hook p \<noteq> None) (userPlugins cmd plugins))
      \<and> prefix (map fst (configResolved_calls (resolveConfig_plugins resolve_rest config plugins cmd mode)))
           (filter (\<lambda>p. configResolved_hook p \<noteq> None) (userPlugins cmd plugins))
      \<and> (completed (resolveConfig_plugins resolve_rest config plugins cmd mode) \<longrightarrow>
           map fst (config_calls (resolveConfig_plugins resolve_rest config plugins cmd mode))
             = filter (\<lambda>p. config_hook p \<noteq> None) (userPlugins cmd plugins)
           \<and> map fst (configResolved_calls (resolveConfig_plugins resolve_rest config plugins cmd mode))
             = filter (\<lambda>p. configResolved_hook p \<noteq> None) (userPlugins cmd plugins)))
   \<and> (\<forall>resolve_rest config plugins cmd mode before p after hook calls accumulated.
      userPlugins cmd plugins = before @ p # after \<and> config_hook p = Some hook \<and>
      spec_config_phase before (cmd, mode) config = (calls, Inr accumulated) \<longrightarrow>
        take (Suc (length calls)) (config_calls (resolveConfig_plugins resolve_rest config plugins cmd mode))
          = calls @ [(p, accumulated)]
        \<and> (hook accumulated (cmd, mode) = Throws \<longrightarrow>
             config_calls (resolveConfig_plugins resolve_rest config plugins cmd mode)
               = calls @ [(p, accumulated)]
             \<and> config_result (resolveConfig_plugins resolve_rest config plugins cmd mode) = Inl HookThrew
             \<and> configResolved_calls (resolveConfig_plugins resolve_rest config plugins cmd mode) = []
             \<and> \<not> completed (resolveConfig_plugins resolve_rest config plugins cmd mode)))
   \<and> map name (userPlugins Serve (Some [Single (mk_plugin ''A'' None), Single (mk_plugin ''B'' (Some Pre)),
         Single (mk_plugin ''C'' (Some Post)), Single (mk_plugin ''D'' (Some Pre))]))
       = [''B'', ''D'', ''A'', ''C'']
   \<and> (map (\<lambda>(p, c). (name p, c))
        (config_calls (resolveConfig_plugins Some []
           (Some [Single (guard_plugin ''A'' None ''x''),
                  Single (returning_plugin ''B'' (Some Pre) [(''x'', Num 1)]),
                  Single (hooked_plugin ''C'' (Some Post) None)])
           Serve ''development''))
       = [(''B'', []), (''A'', [(''x'', Num 1)])]
      \<and> config_result (resolveConfig_plugins Some []
           (Some [Single (guard_plugin ''A'' None ''x''),
                  Single (returning_plugin ''B'' (Some Pre) [(''x'', Num 1)]),
                  Single (hooked_plugin ''C'' (Some Post) None)])
           Serve ''development'') = Inl HookThrew
      \<and> configResolved_calls (resolveConfig_plugins Some []
           (Some [Single (guard_plugin ''A'' None ''x''),
                  Single (returning_plugin ''B'' (Some Pre) [(''x'', Num 1)]),
                  Single (hooked_plugin ''C'' (Some Post) None)])
           Serve ''development'') = []
      \<and> \<not> completed (resolveConfig_plugins Some []
           (Some [Single (guard_plugin ''A'' None ''x''),
                  Single (returning_plugin ''B'' (Some Pre) [(''x'', Num 1)]),
                  Single (hooked_plugin ''C'' (Some Post) None)])
           Serve ''development''))"
proof (intro conjI allI)
  fix cmd plugins
  show "rawUserPlugins cmd plugins =
        filter (\<lambda>p. \<not> (apply_field p \<noteq> None \<and> apply_field p \<noteq> Some cmd))
          (flat (case plugins of None \<Rightarrow> [] | Some ps \<Rightarrow> ps))"
    by (simp add: rawUserPlugins_def)
  show "userPlugins cmd plugins =
        filter (\<lambda>p. enforce p = Some Pre) (rawUserPlugins cmd plugins)
        @ filter (\<lambda>p. enforce p \<noteq> Some Pre \<and> enforce p \<noteq> Some Post) (rawUserPlugins cmd plugins)
        @ filter (\<lambda>p. enforce p = Some Post) (rawUserPlugins cmd plugins)"
    by (rule userPlugins_eq)
next
  fix resolve_rest config plugins cmd mode
  let ?run = "resolveConfig_plugins resolve_rest config plugins cmd mode"
  let ?ups = "userPlugins cmd plugins"
  note facts = pipeline_facts[of resolve_rest config plugins cmd mode]
  show "plugin_order ?run = ?ups" by (rule facts(1))
  show "(config_calls ?run, config_result ?run) = spec_config_phase ?ups (cmd, mode) config"
    unfolding facts(2) spec_config_phase_def by (rule run_config_hooks_foldl)
  show "(case config_result ?run of
            Inl e \<Rightarrow> configResolved_calls ?run = [] \<and> \<not> completed ?run
          | Inr config' \<Rightarrow>
              (case resolve_rest config' of
                 None \<Rightarrow> configResolved_calls ?run = [] \<and> \<not> completed ?run
               | Some resolved \<Rightarrow>
                   (configResolved_calls ?run, if completed ?run then Inr () else Inl HookThrew)
                     = spec_notify_phase ?ups resolved))"
  proof -
    have eq: "spec_notify_phase ?ups resolved = run_configResolved_hooks ?ups resolved []" for resolved
      by (simp only: spec_notify_phase_def run_configResolved_hooks_foldl)
    show ?thesis unfolding eq by (rule facts(3))
  qed
  have c: "run_config_hooks ?ups (cmd, mode) config [] = (config_calls ?run, config_result ?run)"
    by (rule facts(2)[symmetric])
  from run_config_hooks_calls[OF c]
  have calls: "prefix (map fst (config_calls ?run)) (filter (\<lambda>p. config_hook p \<noteq> None) ?ups)"
    "(\<exists>c. config_result ?run = Inr c) \<longrightarrow>
        map fst (config_calls ?run) = filter (\<lambda>p. config_hook p \<noteq> None) ?ups"
    by auto
  show "prefix (map fst (config_calls ?run)) (filter (\<lambda>p. config_hook p \<noteq> None) ?ups)"
    by (rule calls(1))
  have notify: "prefix (map fst (configResolved_calls ?run)) (filter (\<lambda>p. configResolved_hook p \<noteq> None) ?ups)
      \<and> (completed ?run \<longrightarrow>
           (\<exists>c. config_result ?run = Inr c) \<and>
           map fst (configResolved_calls ?run) = filter (\<lambda>p. configResolved_hook p \<noteq> None) ?ups)"
  proof (cases "config_result ?run")
    case (Inl e)
    with facts(3) show ?thesis by simp
  next
    case (Inr config')
    show ?thesis
    proof (cases "resolve_rest config'")
      case None
      with Inr facts(3) show ?thesis by simp
    next
      case (Some resolved)
      with Inr facts(3)
      have "run_configResolved_hooks ?ups resolved []
          = (configResolved_calls ?run, if completed ?run then Inr () else Inl HookThrew)"
        by simp
      from run_configResolved_hooks_calls[OF this] Inr show ?thesis by auto
    qed
  qed
  then show "prefix (map fst (configResolved_calls ?run))
      (filter (\<lambda>p. configResolved_hook p \<noteq> None) ?ups)"
    by blast
  from notify calls(2) show "completed ?run \<longrightarrow>
           map fst (config_calls ?run) = filter (\<lambda>p. config_hook p \<noteq> None) ?ups
           \<and> map fst (configResolved_calls ?run) = filter (\<lambda>p. configResolved_hook p \<noteq> None) ?ups"
    by blast
next
  fix resolve_rest config plugins cmd mode before p after hook calls accumulated
  let ?run = "resolveConfig_plugins resolve_rest config plugins cmd mode"
  note facts = pipeline_facts[of resolve_rest config plugins cmd mode]
  show "userPlugins cmd plugins = before @ p # after \<and> config_hook p = Some hook \<and>
      spec_config_phase before (cmd, mode) config = (calls, Inr accumulated) \<longrightarrow>
        take (Suc (length calls)) (config_calls ?run) = calls @ [(p, accumulated)]
        \<and> (hook accumulated (cmd, mode) = Throws \<longrightarrow>
             config_calls ?run = calls @ [(p, accumulated)]
             \<and> config_result ?run = Inl HookThrew
             \<and> configResolved_calls ?run = []
             \<and> \<not> completed ?run)"
  proof (intro impI, elim conjE, intro conjI)
    assume ups: "userPlugins cmd plugins = before @ p # after"
      and hook: "config_hook p = Some hook"
      and before: "spec_config_phase before (cmd, mode) config = (calls, Inr accumulated)"
    from before have "run_config_hooks before (cmd, mode) config [] = (calls, Inr accumulated)"
      by (simp add: spec_config_phase_def run_config_hooks_foldl)
    with facts(2) ups
    have run: "run_config_hooks (p # after) (cmd, mode) accumulated calls
        = (config_calls ?run, config_result ?run)"
      by (simp add: run_config_hooks_append)
    from run_config_hooks_first[OF hook run] obtain ran where
      "config_calls ?run = calls @ (p, accumulated) # ran" by blast
    then show "take (Suc (length calls)) (config_calls ?run) = calls @ [(p, accumulated)]"
      by simp
    show "hook accumulated (cmd, mode) = Throws \<longrightarrow>
             config_calls ?run = calls @ [(p, accumulated)]
             \<and> config_result ?run = Inl HookThrew
             \<and> configResolved_calls ?run = []
             \<and> \<not> completed ?run"
    proof
      assume "hook accumulated (cmd, mode) = Throws"
      with run hook have "config_calls ?run = calls @ [(p, accumulated)]"
        "config_result ?run = Inl HookThrew"
        by simp_all
      with facts(3) show "config_calls ?run = calls @ [(p, accumulated)]
             \<and> config_result ?run = Inl HookThrew
             \<and> configResolved_calls ?run = []
             \<and> \<not> completed ?run"
        by simp
    qed
  qed
next
  show "map name (userPlugins Serve (Some [Single (mk_plugin ''A'' None), Single (mk_plugin ''B'' (Some Pre)),
         Single (mk_plugin ''C'' (Some Post)), Single (mk_plugin ''D'' (Some Pre))]))
       = [''B'', ''D'', ''A'', ''C'']"
    by (rule ordering_example)
qed (rule abort_example[THEN conjunct1] abort_example[THEN conjunct2, THEN conjunct1]
      abort_example[THEN conjunct2, THEN conjunct2, THEN conjunct1]
      abort_example[THEN conjunct2, THEN conjunct2, THEN conjunct2])+

text \<open>
  C6 on two resolutions.  The first goes through: five plugins with both hooks,
  one of them only for the other command, are invoked as B, D, A, C in both
  passes.  The second is aborted: B (pre) contributes the key \<^verbatim>\<open>x\<close>, A is handed
  the config with that key and throws, and C is never invoked.
\<close>

theorem plugin_pipeline_order_witness:
  "completed (resolveConfig_plugins Some []
      (Some [Single (hooked_plugin ''A'' None None), Many [hooked_plugin ''B'' (Some Pre) (Some Serve),
             hooked_plugin ''X'' (Some Pre) (Some Build)],
             Single (hooked_plugin ''C'' (Some Post) None), Single (hooked_plugin ''D'' (Some Pre) None)])
      Serve ''development'')
   \<and> map name (map fst (config_calls (resolveConfig_plugins Some []
      (Some [Single (hooked_plugin ''A'' None None), Many [hooked_plugin ''B'' (Some Pre) (Some Serve),
             hooked_plugin ''X'' (Some Pre) (Some Build)],
             Single (hooked_plugin ''C'' (Some Post) None), Single (hooked_plugin ''D'' (Some Pre) None)])
      Serve ''development''))) = [''B'', ''D'', ''A'', ''C'']
   \<and> map name (map fst (configResolved_calls (resolveConfig_plugins Some []
      (Some [Single (hooked_plugin ''A'' None None), Many [hooked_plugin ''B'' (Some Pre) (Some Serve),
             hooked_plugin ''X'' (Some Pre) (Some Build)],
             Single (hooked_plugin ''C'' (Some Post) None), Single (hooked_plugin ''D'' (Some Pre) None)])
      Serve ''development''))) = [''B'', ''D'', ''A'', ''C'']
   \<and> userPlugins Serve
        (Some [Single (guard_plugin ''A'' None ''x''),
               Single (returning_plugin ''B'' (Some Pre) [(''x'', Num 1)]),
               Single (hooked_plugin ''C'' (Some Post) None)])
       = [returning_plugin ''B'' (Some Pre) [(''x'', Num 1)]]
         @ guard_plugin ''A'' None ''x'' # [hooked_plugin ''C'' (Some Post) None]
   \<and> spec_config_phase [returning_plugin ''B'' (Some Pre) [(''x'', Num 1)]] (Serve, ''development'') []
       = ([(returning_plugin ''B'' (Some Pre) [(''x'', Num 1)], [])], Inr [(''x'', Num 1)])
   \<and> config_calls (resolveConfig_plugins Some []
        (Some [Single (guard_plugin ''A'' None ''x''),
               Single (returning_plugin ''B'' (Some Pre) [(''x'', Num 1)]),
               Single (hooked_plugin ''C'' (Some Post) None)])
        Serve ''development'')
       = [(returning_plugin ''B'' (Some Pre) [(''x'', Num 1)], [])]
         @ [(guard_plugin ''A'' None ''x'', [(''x'', Num 1)])]
   \<and> config_result (resolveConfig_plugins Some []
        (Some [Single (guard_plugin ''A'' None ''x''),
               Single (returning_plugin ''B'' (Some Pre) [(''x'', Num 1)]),
               Single (hooked_plugin ''C'' (Some Post) None)])
        Serve ''development'') = Inl HookThrew
   \<and> configResolved_calls (resolveConfig_plugins Some []
        (Some [Single (guard_plugin ''A'' None ''x''),
               Single (returning_plugin ''B'' (Some Pre) [(''x'', Num 1)]),
               Single (hooked_plugin ''C'' (Some Post) None)])
        Serve ''development'') = []
   \<and> \<not> completed (resolveConfig_plugins Some []
        (Some [Single (guard_plugin ''A'' None ''x''),
               Single (returning_plugin ''B'' (Some Pre) [(''x'', Num 1)]),
               Single (hooked_plugin ''C'' (Some Post) None)])
        Serve ''development'')"
proof -
  let ?plugins = "Some [Single (hooked_plugin ''A'' None None), Many [hooked_plugin ''B'' (Some Pre) (Some Serve),
             hooked_plugin ''X'' (Some Pre) (Some Build)],
             Single (hooked_plugin ''C'' (Some Post) None), Single (hooked_plugin ''D'' (Some Pre) None)]"
  let ?run = "resolveConfig_plugins Some [] ?plugins Serve ''development''"
  have ups: "userPlugins Serve ?plugins =
      [hooked_plugin ''B'' (Some Pre) (Some Serve), hooked_plugin ''D'' (Some Pre) None,
       hooked_plugin ''A'' None None, hooked_plugin ''C'' (Some Post) None]"
    by (simp add: userPlugins_eq rawUserPlugins_def hooked_plugin_def)
  have fin: "completed ?run"
    by (simp add: resolveConfig_plugins_def ups Let_def) (simp add: hooked_plugin_def)
  from plugin_pipeline_order[THEN conjunct2, THEN conjunct2, THEN conjunct1, rule_format,
      of Some "[]" ?plugins Serve "''development''", THEN conjunct2, THEN conjunct2, THEN conjunct2,
      THEN conjunct2, THEN conjunct2, rule_format, OF fin]
  have "map fst (config_calls ?run) = filter (\<lambda>p. config_hook p \<noteq> None) (userPlugins Serve ?plugins)"
    "map fst (configResolved_calls ?run)
       = filter (\<lambda>p. configResolved_hook p \<noteq> None) (userPlugins Serve ?plugins)"
    by blast+
  then have through: "map name (map fst (config_calls ?run)) = [''B'', ''D'', ''A'', ''C'']"
    "map name (map fst (configResolved_calls ?run)) = [''B'', ''D'', ''A'', ''C'']"
    unfolding ups by (simp_all add: hooked_plugin_def)
  let ?B = "returning_plugin ''B'' (Some Pre) [(''x'', Num 1)]"
  let ?A = "guard_plugin ''A'' None ''x''"
  let ?C = "hooked_plugin ''C'' (Some Post) None"
  let ?aborting = "Some [Single ?A, Single ?B, Single ?C]"
  let ?hook = "\<lambda>(config :: js_record) (configEnv :: command \<times> string).
      if js_get config ''x'' = Undefined then Returns Undefined else Throws"
  have ups': "userPlugins Serve ?aborting = [?B] @ ?A # [?C]"
    by (simp add: userPlugins_eq rawUserPlugins_def hooked_plugin_def returning_plugin_def
        guard_plugin_def)
  have hook: "config_hook ?A = Some ?hook"
    by (simp add: guard_plugin_def)
  have merge: "mergeConfig [] (as_record (Obj [(''x'', Num 1)])) True = Inr [(''x'', Num 1)]"
    by (simp add: mergeConfig.simps as_record_def js_get_def is_nullish_def isArray_def isObject_def)
  have before: "spec_config_phase [?B] (Serve, ''development'') [] = ([(?B, [])], Inr [(''x'', Num 1)])"
    by (simp add: spec_config_phase_def spec_config_step_simps returning_plugin_def merge)
  have throws: "?hook [(''x'', Num 1)] (Serve, ''development'') = Throws"
    by (simp add: js_get_def)
  note law = plugin_pipeline_order[THEN conjunct2, THEN conjunct2, THEN conjunct2, THEN conjunct1,
      rule_format, OF conjI[OF ups' conjI[OF hook before]]]
  from law[of Some, THEN conjunct2, rule_format, OF throws] ups' before through fin
  show ?thesis by blast
qed

section \<open>Properties of the environment loading\<close>

lemma process_env_loop_keys:
  "(\<forall>k. k \<in> fst ` set env \<longrightarrow> startsWith k prefix') \<Longrightarrow>
     (\<forall>k. k \<in> fst ` set (process_env_loop h prefix' penv keys env) \<longrightarrow> startsWith k prefix')"
proof (induction keys arbitrary: env)
  case Nil
  then show ?case by simp
next
  case (Cons key keys)
  show ?case
  proof (cases "startsWith key prefix' \<and> env_undefined h env key")
    case True
    with Cons.prems have "\<forall>k. k \<in> fst ` set (AList.update key (env_get penv key) env) \<longrightarrow> startsWith k prefix'"
      by (auto simp: dom_update)
    from Cons.IH[OF this] True show ?thesis by simp
  next
    case False
    with Cons.IH[OF Cons.prems] show ?thesis by auto
  qed
qed

lemma entries_loop_keys:
  "(\<forall>k. k \<in> fst ` set env \<longrightarrow> startsWith k prefix') \<Longrightarrow>
     (\<forall>k. k \<in> fst ` set (fst (entries_loop h prefix' es (env, penv))) \<longrightarrow> startsWith k prefix')"
proof (induction es arbitrary: env penv)
  case Nil
  then show ?case by simp
next
  case (Cons e es)
  obtain key val where e: "e = (key, val)" by (cases e)
  show ?case
  proof (cases "startsWith key prefix' \<and> env_undefined h env key")
    case True
    with Cons.prems have "\<forall>k. k \<in> fst ` set (AList.update key val env) \<longrightarrow> startsWith k prefix'"
      by (auto simp: dom_update)
    from Cons.IH[OF this] True e show ?thesis by simp
  next
    case False
    with Cons.IH[OF Cons.prems] e show ?thesis by auto
  qed
qed

lemma files_loop_keys:
  "(\<forall>k. k \<in> fst ` set (fst st) \<longrightarrow> startsWith k prefix') \<Longrightarrow>
   files_loop h r prefix' files st = Inr (env', penv') \<Longrightarrow>
     (\<forall>k. k \<in> fst ` set env' \<longrightarrow> startsWith k prefix')"
proof (induction files arbitrary: st)
  case Nil
  then show ?case by simp
next
  case (Cons name rest)
  obtain env penv where st: "st = (env, penv)" by (cases st)
  show ?case
  proof (cases "env_lookupFile h r name")
    case None
    with Cons show ?thesis by simp
  next
    case (Some path)
    show ?thesis
    proof (cases "path = []")
      case True
      with Some Cons show ?thesis by simp
    next
      case False
      with Some Cons.prems(2) obtain content where
        content: "env_readFile h path = Some content"
        and run: "files_loop h r prefix' rest
                    (entries_loop h prefix' (dotenv_expand h (dotenv_parse h content)) st) = Inr (env', penv')"
        by (auto simp: Let_def split: option.splits)
      from entries_loop_keys[of env prefix' h _ penv] Cons.prems(1) st
      have "\<forall>k. k \<in> fst ` set (fst (entries_loop h prefix' (dotenv_expand h (dotenv_parse h content)) st))
               \<longrightarrow> startsWith k prefix'"
        by simp
      from Cons.IH[OF this run] show ?thesis .
    qed
  qed
qed

text \<open>
  C10.  Whatever the mode, the root, the prefix, the environment of the
  process and the files found: every key of the mapping \<^verbatim>\<open>loadEnv\<close> returns
  starts with the prefix.
\<close>

theorem loadEnv_keys_prefixed:
  "\<forall>h penv mode r prefix' env penv'.
     loadEnv h penv mode r prefix' = Inr (env, penv') \<longrightarrow>
       (\<forall>key. key \<in> fst ` set env \<longrightarrow> startsWith key prefix')"
proof (intro allI impI)
  fix h penv mode r prefix' env penv' key
  assume run: "loadEnv h penv mode r prefix' = Inr (env, penv')" and key: "key \<in> fst ` set env"
  from run have files: "files_loop h r prefix' (envFiles mode)
            (process_env_loop h prefix' penv (map fst penv) [], penv) = Inr (env, penv')"
    by (simp add: loadEnv_def split: if_splits)
  have "\<forall>k. k \<in> fst ` set (process_env_loop h prefix' penv (map fst penv) []) \<longrightarrow> startsWith k prefix'"
    by (rule process_env_loop_keys) simp
  then have "\<forall>k. k \<in> fst ` set (fst (process_env_loop h prefix' penv (map fst penv) [], penv))
      \<longrightarrow> startsWith k prefix'"
    by simp
  from files_loop_keys[OF this files] key show "startsWith key prefix'" by blast
qed

text \<open>
  C10 on a project with one \<^verbatim>\<open>.env\<close> file and the default prefix.
\<close>

theorem loadEnv_keys_prefixed_witness:
  "loadEnv sample_env_host [(''PATH'', ''/bin''), (''VITE_B'', ''x''), (''toString'', ''y'')]
      ''development'' ''/app'' ''VITE_''
     = Inr ([(''VITE_B'', ''x''), (''VITE_A'', ''1'')],
            [(''PATH'', ''/bin''), (''VITE_B'', ''x''), (''toString'', ''y''),
             (''VITE_USER_NODE_ENV'', ''production'')])
   \<and> startsWith ''VITE_B'' ''VITE_'' \<and> startsWith ''VITE_A'' ''VITE_''"
proof -
  have run: "loadEnv sample_env_host [(''PATH'', ''/bin''), (''VITE_B'', ''x''), (''toString'', ''y'')]
      ''development'' ''/app'' ''VITE_''
     = Inr ([(''VITE_B'', ''x''), (''VITE_A'', ''1'')],
            [(''PATH'', ''/bin''), (''VITE_B'', ''x''), (''toString'', ''y''),
             (''VITE_USER_NODE_ENV'', ''production'')])"
    by (simp add: loadEnv_def envFiles_def sample_env_host_def startsWith_def env_undefined_def
        env_get_def Let_def)
  from loadEnv_keys_prefixed[rule_format, OF run, of "''VITE_B''"]
    loadEnv_keys_prefixed[rule_format, OF run, of "''VITE_A''"]
  have "startsWith ''VITE_B'' ''VITE_'' \<and> startsWith ''VITE_A'' ''VITE_''" by simp
  with run show ?thesis by blast
qed


section \<open>Properties of the Config Loader\<close>

lemma discover_ts_project:
  "discover (esm_ts_host outcome) ts_project None ''/app'' = (Some ''/app/vite.config.ts'', True, True)"
  by (simp add: discover_def esm_ts_host_def ts_project_def existsSync_def Let_def)

text \<open>
  C7 does not hold of the code.  In a project with \<^verbatim>\<open>type: module\<close> and a
  \<^verbatim>\<open>vite.config.ts\<close>, when the import of the written artifact throws, the call
  ends with that error and \<^verbatim>\<open>vite.config.ts.js\<close> still exists: \<^verbatim>\<open>fs.unlinkSync\<close>
  follows the import as a plain statement and is not reached.  When the import
  succeeds the artifact is removed and the file system is as before.
\<close>

theorem loadConfigFromFile_import_failure_leaves_artifact:
  "loadConfigFromFile (esm_ts_host (Failed ''boom'')) ts_project (Serve, ''development'') None ''/app''
     = ([(''/app/package.json'', ''{ type: module }''),
         (''/app/vite.config.ts'', ''export default {}''),
         (''/app/vite.config.ts.js'', ''export default {}'')],
        Inl (LoadFailed ''boom''))
   \<and> existsSync (fst (loadConfigFromFile (esm_ts_host (Failed ''boom'')) ts_project
                          (Serve, ''development'') None ''/app''))
         ''/app/vite.config.ts.js''
   \<and> loadConfigFromFile (esm_ts_host (Ok (ExportObject []))) ts_project (Serve, ''development'') None ''/app''
     = (ts_project, Inr (Some (''/app/vite.config.ts'', [])))"
proof -
  have a: "loadConfigFromFile (esm_ts_host (Failed ''boom'')) ts_project (Serve, ''development'') None ''/app''
     = ([(''/app/package.json'', ''{ type: module }''),
         (''/app/vite.config.ts'', ''export default {}''),
         (''/app/vite.config.ts.js'', ''export default {}'')],
        Inl (LoadFailed ''boom''))"
    unfolding loadConfigFromFile_def discover_ts_project
    by (simp add: load_esm_def esm_ts_host_def ts_project_def writeFileSync_def Let_def)
  have b: "loadConfigFromFile (esm_ts_host (Ok (ExportObject []))) ts_project (Serve, ''development'') None ''/app''
     = (ts_project, Inr (Some (''/app/vite.config.ts'', [])))"
    unfolding loadConfigFromFile_def discover_ts_project
    by (simp add: load_esm_def esm_ts_host_def ts_project_def writeFileSync_def unlinkSync_def
        existsSync_def Let_def)
  show ?thesis unfolding a using b by (simp add: existsSync_def)
qed

end
